theory Spec2Isabelle
  imports Main "HOL-Library.Word"
begin

section \<open>Memory trackers\<close>

text \<open>
  \<^verbatim>\<open>size_t\<close> on the 64-bit targets of the backend. A tracker object is identified by its
  address; a \<^verbatim>\<open>std::shared_ptr\<close> is either null (\<open>None\<close>) or points to a tracker
  (\<open>Some a\<close>).
\<close>

type_synonym size_t = "64 word"
type_synonym addr = nat
type_synonym shared_ptr = "addr option"

datatype tracker_call = Consume addr size_t | Release addr size_t

text \<open>
  The tracker objects of the process: the consumption counter of each one, and the history
  of the calls made on them (oldest first). The history is not state of the program; it is
  kept so that "one release" and "no release" can be told apart from a release of zero
  bytes.
\<close>

record trackers =
  consumption :: "addr \<Rightarrow> int"
  calls :: "tracker_call list"

definition fresh_trackers :: trackers where
  "fresh_trackers = \<lparr>consumption = (\<lambda>_. 0), calls = []\<rparr>"

text \<open>
  Modelled from the spec: \<^verbatim>\<open>MemTracker::consume\<close>, \<^verbatim>\<open>MemTracker::release\<close> and the same
  two members of \<^verbatim>\<open>MemTrackerLimiter\<close> (runtime/memory/mem_tracker_limiter.h is included by
  lru_cache_value_base.h but is not among the sources). Section 4.1: consume increases
  the node's accounted usage by the given bytes, release decreases it, there is no other
  side effect and neither call fails. The counter is an unbounded integer here. Calling
  through a null pointer is undefined behaviour in the source and is the result \<open>None\<close>.
\<close>

definition consume :: "shared_ptr \<Rightarrow> size_t \<Rightarrow> trackers \<Rightarrow> trackers option" where
  "consume p bytes ts =
     (case p of
        None \<Rightarrow> None
      | Some a \<Rightarrow> Some (ts\<lparr>consumption := (consumption ts)(a := consumption ts a + uint bytes),
                           calls := calls ts @ [Consume a bytes]\<rparr>))"

definition release :: "shared_ptr \<Rightarrow> size_t \<Rightarrow> trackers \<Rightarrow> trackers option" where
  "release p bytes ts =
     (case p of
        None \<Rightarrow> None
      | Some a \<Rightarrow> Some (ts\<lparr>consumption := (consumption ts)(a := consumption ts a - uint bytes),
                           calls := calls ts @ [Release a bytes]\<rparr>))"

section \<open>LRUCacheValueBase\<close>

text \<open>
  The four protected members of \<^verbatim>\<open>LRUCacheValueBase\<close>, with the prefix \<open>m\<close> where the
  source has a leading underscore.
\<close>

record LRUCacheValueBase =
  m_tracking_bytes :: size_t
  m_value_tracking_bytes :: size_t
  m_mem_tracker :: shared_ptr
  m_value_mem_tracker :: shared_ptr

text \<open>The default member initialisers: both byte counts 0, both pointers null.\<close>

definition new_LRUCacheValueBase :: LRUCacheValueBase where
  "new_LRUCacheValueBase =
     \<lparr>m_tracking_bytes = 0, m_value_tracking_bytes = 0,
      m_mem_tracker = None, m_value_mem_tracker = None\<rparr>"

text \<open>
  \<^verbatim>\<open>set_tracking_bytes\<close>: the four assignments, then the two consumes, each through the
  member just assigned. The object and the trackers are passed in and returned.
\<close>

definition set_tracking_bytes ::
  "size_t \<Rightarrow> shared_ptr \<Rightarrow> size_t \<Rightarrow> shared_ptr \<Rightarrow> LRUCacheValueBase \<Rightarrow> trackers
     \<Rightarrow> (LRUCacheValueBase \<times> trackers) option" where
  "set_tracking_bytes tracking_bytes mem_tracker value_tracking_bytes value_mem_tracker this ts =
     (let this1 = this\<lparr>m_tracking_bytes := tracking_bytes\<rparr>;
          this2 = this1\<lparr>m_mem_tracker := mem_tracker\<rparr>;
          this3 = this2\<lparr>m_value_tracking_bytes := value_tracking_bytes\<rparr>;
          this4 = this3\<lparr>m_value_mem_tracker := value_mem_tracker\<rparr>
      in case consume (m_mem_tracker this4) (m_tracking_bytes this4) ts of
           None \<Rightarrow> None
         | Some ts1 \<Rightarrow>
             (case consume (m_value_mem_tracker this4) (m_value_tracking_bytes this4) ts1 of
                None \<Rightarrow> None
              | Some ts2 \<Rightarrow> Some (this4, ts2)))"

text \<open>
  \<^verbatim>\<open>~LRUCacheValueBase\<close>: both releases are under the one test \<^verbatim>\<open>_tracking_bytes > 0\<close>
  (an unsigned comparison).
\<close>

definition destructor :: "LRUCacheValueBase \<Rightarrow> trackers \<Rightarrow> trackers option" where
  "destructor this ts =
     (if 0 < m_tracking_bytes this then
        (case release (m_mem_tracker this) (m_tracking_bytes this) ts of
           None \<Rightarrow> None
         | Some ts1 \<Rightarrow> release (m_value_mem_tracker this) (m_value_tracking_bytes this) ts1)
      else Some ts)"

text \<open>
  What one \<^verbatim>\<open>set_tracking_bytes\<close> call adds to the tracker at address \<open>a\<close>: the entry
  bytes if \<open>a\<close> is the entry tracker, plus the value bytes if \<open>a\<close> is the value tracker.
\<close>

definition charge :: "size_t \<Rightarrow> addr \<Rightarrow> size_t \<Rightarrow> addr \<Rightarrow> addr \<Rightarrow> int" where
  "charge tb m vtb v a = (if a = m then uint tb else 0) + (if a = v then uint vtb else 0)"


section \<open>Sequences of entry creations and destructions\<close>

text \<open>
  The cache that owns the entries is not part of the sources; the properties about it
  quantify over what it can do to entries. An event is the creation of an entry object
  at a fresh address followed by its one \<^verbatim>\<open>set_tracking_bytes\<close> call (\<open>Create\<close>), a further
  \<^verbatim>\<open>set_tracking_bytes\<close> call on a live entry (\<open>Retrack\<close>), or the destruction of a live
  entry (\<open>Destroy\<close>). Creating at an address in use, touching an entry that is not live and
  calling through a null tracker pointer are not executions of the program: the result
  is \<open>None\<close>.
\<close>

type_synonym obj = nat

datatype event =
    Create obj size_t shared_ptr size_t shared_ptr
  | Retrack obj size_t shared_ptr size_t shared_ptr
  | Destroy obj

record cache_state =
  entries :: "obj \<rightharpoonup> LRUCacheValueBase"
  trk :: trackers

definition start :: "trackers \<Rightarrow> cache_state" where
  "start ts = \<lparr>entries = Map.empty, trk = ts\<rparr>"

fun step :: "event \<Rightarrow> cache_state \<Rightarrow> cache_state option" where
  "step (Create i tb mt vtb vmt) s =
     (case entries s i of
        Some _ \<Rightarrow> None
      | None \<Rightarrow>
          (case set_tracking_bytes tb mt vtb vmt new_LRUCacheValueBase (trk s) of
             None \<Rightarrow> None
           | Some (e, ts) \<Rightarrow> Some \<lparr>entries = (entries s)(i \<mapsto> e), trk = ts\<rparr>))"
| "step (Retrack i tb mt vtb vmt) s =
     (case entries s i of
        None \<Rightarrow> None
      | Some e0 \<Rightarrow>
          (case set_tracking_bytes tb mt vtb vmt e0 (trk s) of
             None \<Rightarrow> None
           | Some (e, ts) \<Rightarrow> Some \<lparr>entries = (entries s)(i \<mapsto> e), trk = ts\<rparr>))"
| "step (Destroy i) s =
     (case entries s i of
        None \<Rightarrow> None
      | Some e \<Rightarrow>
          (case destructor e (trk s) of
             None \<Rightarrow> None
           | Some ts \<Rightarrow> Some \<lparr>entries = (entries s)(i := None), trk = ts\<rparr>))"

fun run :: "event list \<Rightarrow> cache_state \<Rightarrow> cache_state option" where
  "run [] s = Some s"
| "run (ev # evs) s = (case step ev s of None \<Rightarrow> None | Some s1 \<Rightarrow> run evs s1)"

text \<open>
  An event of a cache in which every entry gets exactly one \<^verbatim>\<open>set_tracking_bytes\<close>
  call, with a positive entry byte count.
\<close>

fun tracked_once_positive :: "event \<Rightarrow> bool" where
  "tracked_once_positive (Create i tb mt vtb vmt) = (0 < tb)"
| "tracked_once_positive (Retrack i tb mt vtb vmt) = False"
| "tracked_once_positive (Destroy i) = True"

text \<open>
  The accounted total of the tracker at \<open>a\<close> over a history of calls: the bytes consumed
  on it minus the bytes released on it.
\<close>

fun accounted :: "tracker_call list \<Rightarrow> addr \<Rightarrow> int" where
  "accounted [] a = 0"
| "accounted (Consume b n # cs) a = (if a = b then uint n else 0) + accounted cs a"
| "accounted (Release b n # cs) a = accounted cs a - (if a = b then uint n else 0)"

text \<open>
  What the destructor of an entry will take off the tracker at \<open>a\<close>, and the sum of it
  over the live entries.
\<close>

definition owed :: "LRUCacheValueBase \<Rightarrow> addr \<Rightarrow> int" where
  "owed e a =
     (if 0 < m_tracking_bytes e then
        (if m_mem_tracker e = Some a then uint (m_tracking_bytes e) else 0) +
        (if m_value_mem_tracker e = Some a then uint (m_value_tracking_bytes e) else 0)
      else 0)"

definition total_owed :: "(obj \<rightharpoonup> LRUCacheValueBase) \<Rightarrow> addr \<Rightarrow> int" where
  "total_owed h a = (\<Sum>i\<in>dom h. owed (the (h i)) a)"

text \<open>
  The accounted total is not negative after any number of the calls of a history; the
  states of a run in which the counter of the tracker at \<open>a\<close> is its accounted total,
  covers what the destructors of the live entries will release, and has never been
  negative.
\<close>

definition prefixes_nonneg :: "tracker_call list \<Rightarrow> addr \<Rightarrow> bool" where
  "prefixes_nonneg cs a = (\<forall>k. 0 \<le> accounted (take k cs) a)"

definition accounts_ok :: "cache_state \<Rightarrow> addr \<Rightarrow> bool" where
  "accounts_ok s a =
     (finite (dom (entries s))
      \<and> consumption (trk s) a = accounted (calls (trk s)) a
      \<and> total_owed (entries s) a \<le> consumption (trk s) a
      \<and> prefixes_nonneg (calls (trk s)) a)"

section \<open>The configuration fields of cloud/config.cpp\<close>

datatype field_type = TString | TBool | TInt32 | TInt64 | TDouble

record config_field =
  field_name :: string
  field_type :: field_type
  field_mutable :: bool
  field_default :: string

text \<open>
  Modelled from the spec: the \<^verbatim>\<open>DEFINE_\<close> macros (common/config.h, reached through
  cloud/config.h, is not among the sources). Section 6: the configuration source provides
  named strings, booleans, integers and doubles, and a field marked mutable can change at
  run time without a restart. The mark is the \<^verbatim>\<open>m\<close> in the macro's name; the default is
  the string the macro is given.
\<close>

definition DEFINE_String :: "string \<Rightarrow> string \<Rightarrow> config_field" where
  "DEFINE_String n d =
     \<lparr>field_name = n, field_type = TString, field_mutable = False, field_default = d\<rparr>"

definition DEFINE_mString :: "string \<Rightarrow> string \<Rightarrow> config_field" where
  "DEFINE_mString n d =
     \<lparr>field_name = n, field_type = TString, field_mutable = True, field_default = d\<rparr>"

definition DEFINE_Bool :: "string \<Rightarrow> string \<Rightarrow> config_field" where
  "DEFINE_Bool n d =
     \<lparr>field_name = n, field_type = TBool, field_mutable = False, field_default = d\<rparr>"

definition DEFINE_mBool :: "string \<Rightarrow> string \<Rightarrow> config_field" where
  "DEFINE_mBool n d =
     \<lparr>field_name = n, field_type = TBool, field_mutable = True, field_default = d\<rparr>"

definition DEFINE_Int64 :: "string \<Rightarrow> string \<Rightarrow> config_field" where
  "DEFINE_Int64 n d =
     \<lparr>field_name = n, field_type = TInt64, field_mutable = False, field_default = d\<rparr>"

definition DEFINE_mInt64 :: "string \<Rightarrow> string \<Rightarrow> config_field" where
  "DEFINE_mInt64 n d =
     \<lparr>field_name = n, field_type = TInt64, field_mutable = True, field_default = d\<rparr>"

definition DEFINE_mInt32 :: "string \<Rightarrow> string \<Rightarrow> config_field" where
  "DEFINE_mInt32 n d =
     \<lparr>field_name = n, field_type = TInt32, field_mutable = True, field_default = d\<rparr>"

definition DEFINE_mDouble :: "string \<Rightarrow> string \<Rightarrow> config_field" where
  "DEFINE_mDouble n d =
     \<lparr>field_name = n, field_type = TDouble, field_mutable = True, field_default = d\<rparr>"

text \<open>The definitions of namespace \<^verbatim>\<open>doris::config\<close> in cloud/config.cpp, in file order.\<close>

definition config_fields :: "config_field list" where
  "config_fields =
     [DEFINE_String ''deploy_mode'' '''',
      DEFINE_mString ''cloud_unique_id'' '''',
      DEFINE_mString ''meta_service_endpoint'' '''',
      DEFINE_mBool ''enable_meta_service_endpoint_consistency_check'' ''true'',
      DEFINE_Bool ''meta_service_use_load_balancer'' ''false'',
      DEFINE_mInt32 ''meta_service_rpc_timeout_ms'' ''10000'',
      DEFINE_Bool ''meta_service_connection_pooled'' ''true'',
      DEFINE_mInt64 ''meta_service_connection_pool_size'' ''20'',
      DEFINE_mInt32 ''meta_service_connection_age_base_seconds'' ''30'',
      DEFINE_mInt32 ''meta_service_idle_connection_timeout_ms'' ''0'',
      DEFINE_mInt32 ''meta_service_rpc_retry_times'' ''20'',
      DEFINE_mInt32 ''meta_service_brpc_timeout_ms'' ''10000'',
      DEFINE_mInt32 ''meta_service_rpc_timeout_retry_times'' ''2'',
      DEFINE_Int64 ''tablet_cache_capacity'' ''100000'',
      DEFINE_Int64 ''tablet_cache_shards'' ''16'',
      DEFINE_mInt32 ''tablet_sync_interval_s'' ''1800'',
      DEFINE_mInt32 ''init_scanner_sync_rowsets_parallelism'' ''10'',
      DEFINE_mInt32 ''sync_rowsets_slow_threshold_ms'' ''1000'',
      DEFINE_mInt64 ''min_compaction_failure_interval_ms'' ''5000'',
      DEFINE_mInt64 ''base_compaction_freeze_interval_s'' ''1800'',
      DEFINE_mInt64 ''compaction_load_max_freeze_interval_s'' ''1200'',
      DEFINE_mInt64 ''cumu_compaction_interval_s'' ''1800'',
      DEFINE_mInt32 ''compaction_timeout_seconds'' ''86400'',
      DEFINE_mInt32 ''lease_compaction_interval_seconds'' ''20'',
      DEFINE_mBool ''enable_parallel_cumu_compaction'' ''false'',
      DEFINE_mDouble ''base_compaction_thread_num_factor'' ''0.25'',
      DEFINE_mDouble ''cumu_compaction_thread_num_factor'' ''0.5'',
      DEFINE_mInt32 ''check_auto_compaction_interval_seconds'' ''5'',
      DEFINE_mInt32 ''max_base_compaction_task_num_per_disk'' ''2'',
      DEFINE_mBool ''prioritize_query_perf_in_compaction'' ''false'',
      DEFINE_mInt32 ''compaction_max_rowset_count'' ''10000'',
      DEFINE_mInt32 ''refresh_s3_info_interval_s'' ''60'',
      DEFINE_mInt32 ''vacuum_stale_rowsets_interval_s'' ''300'',
      DEFINE_mInt32 ''schedule_sync_tablets_interval_s'' ''600'',
      DEFINE_mInt32 ''mow_stream_load_commit_retry_times'' ''5'',
      DEFINE_mBool ''save_load_error_log_to_s3'' ''false'',
      DEFINE_mInt32 ''sync_load_for_tablets_thread'' ''32'',
      DEFINE_mBool ''enable_new_tablet_do_compaction'' ''true'',
      DEFINE_mInt32 ''delete_bitmap_lock_expiration_seconds'' ''10'',
      DEFINE_mInt32 ''get_delete_bitmap_lock_max_retry_times'' ''100'',
      DEFINE_Bool ''enable_cloud_txn_lazy_commit'' ''false'',
      DEFINE_mInt32 ''remove_expired_tablet_txn_info_interval_seconds'' ''300'',
      DEFINE_mInt32 ''tablet_txn_info_min_expired_seconds'' ''1800'',
      DEFINE_mBool ''enable_use_cloud_unique_id_from_fe'' ''true'',
      DEFINE_mBool ''enable_cloud_tablet_report'' ''true'',
      DEFINE_mInt32 ''delete_bitmap_rpc_retry_times'' ''25'',
      DEFINE_mInt64 ''meta_service_rpc_reconnect_interval_ms'' ''5000'',
      DEFINE_mInt32 ''meta_service_conflict_error_retry_times'' ''10'',
      DEFINE_Bool ''enable_check_storage_vault'' ''true'']"

text \<open>Looking a field up by name; the first definition with the name.\<close>

fun lookup_field :: "string \<Rightarrow> config_field list \<Rightarrow> config_field option" where
  "lookup_field n [] = None"
| "lookup_field n (f # fs) = (if field_name f = n then Some f else lookup_field n fs)"

text \<open>
  Modelled from the spec: reading an integer default (the parser of the configuration
  mechanism is not among the sources): an optional minus sign and decimal digits.
\<close>

definition digit_of :: "char \<Rightarrow> nat option" where
  "digit_of c =
     (if of_char c \<ge> (48::nat) \<and> of_char c \<le> (57::nat) then Some (of_char c - 48) else None)"

fun parse_digits :: "nat \<Rightarrow> string \<Rightarrow> nat option" where
  "parse_digits acc [] = Some acc"
| "parse_digits acc (c # cs) =
     (case digit_of c of None \<Rightarrow> None | Some d \<Rightarrow> parse_digits (10 * acc + d) cs)"

definition parse_int :: "string \<Rightarrow> int option" where
  "parse_int s =
     (case s of
        [] \<Rightarrow> None
      | c # cs \<Rightarrow>
          (if c = CHR ''-'' then
             (case cs of [] \<Rightarrow> None | _ \<Rightarrow> map_option (\<lambda>n. - int n) (parse_digits 0 cs))
           else map_option int (parse_digits 0 s)))"

definition config_int :: "string \<Rightarrow> int option" where
  "config_int n =
     (case lookup_field n config_fields of
        None \<Rightarrow> None
      | Some f \<Rightarrow>
          (if field_type f = TInt32 \<or> field_type f = TInt64 then parse_int (field_default f)
           else None))"

text \<open>
  The tuning knobs by kind, read off the field names: timeouts, retry counts, intervals,
  capacities and thread factors.
\<close>

fun is_prefix :: "string \<Rightarrow> string \<Rightarrow> bool" where
  "is_prefix [] s = True"
| "is_prefix (c # cs) [] = False"
| "is_prefix (c # cs) (d # ds) = (c = d \<and> is_prefix cs ds)"

fun contains :: "string \<Rightarrow> string \<Rightarrow> bool" where
  "contains sub [] = is_prefix sub []"
| "contains sub (d # ds) = (is_prefix sub (d # ds) \<or> contains sub ds)"

datatype knob_kind = TimeoutKnob | RetryCountKnob | IntervalKnob | CapacityKnob | ThreadFactorKnob

definition knob_kinds :: "config_field \<Rightarrow> knob_kind list" where
  "knob_kinds f =
     (if contains ''timeout'' (field_name f) then [TimeoutKnob] else []) @
     (if contains ''retry_times'' (field_name f) then [RetryCountKnob] else []) @
     (if contains ''interval'' (field_name f) then [IntervalKnob] else []) @
     (if contains ''capacity'' (field_name f) then [CapacityKnob] else []) @
     (if contains ''thread_num_factor'' (field_name f) then [ThreadFactorKnob] else [])"

section \<open>MetaServiceClient: the retry policy\<close>

text \<open>
  Modelled from the spec: the retrying call of MetaServiceClient (the client is not among
  the sources; cloud/config.cpp only defines its budgets). Section 3, RpcAttempt: the
  outcome of one attempt is success, timeout, connection error or application conflict.
  Section 4.3: three independently configured budgets, the general one for connection
  failures, one for timeouts and one for application conflicts; when the budget of the
  failing kind is exhausted the call fails with the error kind of that budget. Section 8
  counts the timeout budget in attempts (the call fails after exactly that many attempts)
  and the conflict budget in retries (the call retries exactly that many times before it
  fails); the model follows each sentence as written, and counts the general budget in
  retries as section 4.3 names it. Every call makes at least one attempt.
\<close>

datatype rpc_outcome = Success | Timeout | ConnectionError | ApplicationConflict

text \<open>The error taxonomy of section 7.\<close>

datatype error =
    RpcTimeout | RpcConnectionFailure | RpcConflict
  | LeaseExpired | LeaseBusy | LoaderFailure | CapacityExceeded

record retry_budgets =
  rpc_retry_times :: int
  rpc_timeout_retry_times :: int
  conflict_error_retry_times :: int

text \<open>
  The endpoint gives the outcome of the attempt with a given number (from 0). The loop
  carries the number of the attempt, the timeouts seen and the retries spent on
  connection failures and on conflicts; it returns the result and the number of attempts
  made.
\<close>

function retry_rpc ::
  "retry_budgets \<Rightarrow> (nat \<Rightarrow> rpc_outcome) \<Rightarrow> nat \<Rightarrow> nat \<Rightarrow> nat \<Rightarrow> nat
     \<Rightarrow> (error + unit) \<times> nat" where
  "retry_rpc b endpoint attempt timeouts conn_retries conflict_retries =
     (case endpoint attempt of
        Success \<Rightarrow> (Inr (), Suc attempt)
      | Timeout \<Rightarrow>
          (if rpc_timeout_retry_times b \<le> int (Suc timeouts) then (Inl RpcTimeout, Suc attempt)
           else retry_rpc b endpoint (Suc attempt) (Suc timeouts) conn_retries conflict_retries)
      | ConnectionError \<Rightarrow>
          (if rpc_retry_times b \<le> int conn_retries then (Inl RpcConnectionFailure, Suc attempt)
           else retry_rpc b endpoint (Suc attempt) timeouts (Suc conn_retries) conflict_retries)
      | ApplicationConflict \<Rightarrow>
          (if conflict_error_retry_times b \<le> int conflict_retries
           then (Inl RpcConflict, Suc attempt)
           else retry_rpc b endpoint (Suc attempt) timeouts conn_retries (Suc conflict_retries)))"
  by pat_completeness auto
termination
  by (relation "measure (\<lambda>(b, endpoint, attempt, timeouts, conn_retries, conflict_retries).
        nat (rpc_timeout_retry_times b - int timeouts)
        + nat (rpc_retry_times b - int conn_retries)
        + nat (conflict_error_retry_times b - int conflict_retries))") auto

declare retry_rpc.simps [simp del]

definition meta_service_call ::
  "retry_budgets \<Rightarrow> (nat \<Rightarrow> rpc_outcome) \<Rightarrow> (error + unit) \<times> nat" where
  "meta_service_call b endpoint = retry_rpc b endpoint 0 0 0 0"

text \<open>The retries of a call: its attempts after the first.\<close>

definition retries_made :: "(error + unit) \<times> nat \<Rightarrow> nat" where
  "retries_made r = snd r - 1"

text \<open>The budgets as cloud/config.cpp defines them.\<close>

definition configured_budgets :: "retry_budgets option" where
  "configured_budgets =
     (case config_int ''meta_service_rpc_retry_times'' of
        None \<Rightarrow> None
      | Some g \<Rightarrow>
          (case config_int ''meta_service_rpc_timeout_retry_times'' of
             None \<Rightarrow> None
           | Some t \<Rightarrow>
               (case config_int ''meta_service_conflict_error_retry_times'' of
                  None \<Rightarrow> None
                | Some c \<Rightarrow>
                    Some \<lparr>rpc_retry_times = g, rpc_timeout_retry_times = t,
                          conflict_error_retry_times = c\<rparr>)))"

section \<open>The lease protocol\<close>

text \<open>
  Modelled from the spec: the lease table of the meta-service and the acquire operation of
  CompactionLockManager (neither is among the sources; cloud/config.cpp only defines the
  lease duration \<^verbatim>\<open>delete_bitmap_lock_expiration_seconds\<close>). Section 3,
  TabletCompactionLease: tablet, owner, expiration timestamp and epoch; at most one lease
  per tablet at the meta-service. Section 4.4: an acquisition is refused with a conflict
  while another lease on the tablet is live, and otherwise returns the next epoch of the
  tablet and an expiration; a lease is expired once its expiration has passed, with no
  safety margin; a release gives the lease up early; a mutation under an epoch that is not
  the current one, or under an expired lease, is rejected. Section 6: the requests take
  tablet, owner and epoch. Times are in seconds.
\<close>

type_synonym tablet_id = nat
type_synonym owner_id = nat

record TabletCompactionLease =
  lease_tablet :: tablet_id
  lease_owner :: owner_id
  lease_expiration :: nat
  lease_epoch :: nat

record meta_service =
  leases :: "tablet_id \<rightharpoonup> TabletCompactionLease"
  epochs :: "tablet_id \<Rightarrow> nat"

definition empty_meta_service :: meta_service where
  "empty_meta_service = \<lparr>leases = Map.empty, epochs = (\<lambda>_. 0)\<rparr>"

definition expired :: "nat \<Rightarrow> TabletCompactionLease \<Rightarrow> bool" where
  "expired now l = (lease_expiration l < now)"

datatype ms_request =
    AcquireLease tablet_id owner_id
  | RenewLease tablet_id owner_id nat
  | ReleaseLease tablet_id owner_id
  | UpdateDeleteBitmap tablet_id owner_id nat

datatype ms_reply =
    LeaseGranted TabletCompactionLease
  | LeaseRenewed TabletCompactionLease
  | Applied
  | Conflict
  | Rejected

definition grant :: "nat \<Rightarrow> nat \<Rightarrow> tablet_id \<Rightarrow> owner_id \<Rightarrow> meta_service \<Rightarrow> ms_reply \<times> meta_service" where
  "grant secs now t ow ms =
     (let l = \<lparr>lease_tablet = t, lease_owner = ow, lease_expiration = now + secs,
               lease_epoch = epochs ms t + 1\<rparr>
      in (LeaseGranted l,
          ms\<lparr>leases := (leases ms)(t \<mapsto> l), epochs := (epochs ms)(t := epochs ms t + 1)\<rparr>))"

fun handle :: "nat \<Rightarrow> nat \<Rightarrow> ms_request \<Rightarrow> meta_service \<Rightarrow> ms_reply \<times> meta_service" where
  "handle secs now (AcquireLease t ow) ms =
     (case leases ms t of
        None \<Rightarrow> grant secs now t ow ms
      | Some l \<Rightarrow> if expired now l then grant secs now t ow ms else (Conflict, ms))"
| "handle secs now (RenewLease t ow e) ms =
     (case leases ms t of
        None \<Rightarrow> (Rejected, ms)
      | Some l \<Rightarrow>
          if lease_owner l = ow \<and> lease_epoch l = e \<and> \<not> expired now l then
            (LeaseRenewed (l\<lparr>lease_expiration := now + secs\<rparr>),
             ms\<lparr>leases := (leases ms)(t \<mapsto> l\<lparr>lease_expiration := now + secs\<rparr>)\<rparr>)
          else (Rejected, ms))"
| "handle secs now (ReleaseLease t ow) ms =
     (case leases ms t of
        None \<Rightarrow> (Rejected, ms)
      | Some l \<Rightarrow>
          if lease_owner l = ow then (Applied, ms\<lparr>leases := (leases ms)(t := None)\<rparr>)
          else (Rejected, ms))"
| "handle secs now (UpdateDeleteBitmap t ow e) ms =
     (case leases ms t of
        None \<Rightarrow> (Rejected, ms)
      | Some l \<Rightarrow>
          if lease_owner l = ow \<and> lease_epoch l = e \<and> \<not> expired now l then (Applied, ms)
          else (Rejected, ms))"

text \<open>The meta-service serving requests one after the other, each at its time.\<close>

fun serve :: "nat \<Rightarrow> (nat \<times> ms_request) list \<Rightarrow> meta_service \<Rightarrow> ms_reply list \<times> meta_service" where
  "serve secs [] ms = ([], ms)"
| "serve secs ((now, r) # rs) ms =
     (case handle secs now r ms of
        (rep, ms1) \<Rightarrow> (case serve secs rs ms1 of (reps, ms2) \<Rightarrow> (rep # reps, ms2)))"

text \<open>
  The acquire of the lock manager is one call of the client. Attempt \<open>k\<close> takes place at
  time \<open>clock k\<close>; the transport decides whether it reaches the meta-service
  (\<open>Success\<close>) or fails; an attempt that arrives is answered from the lease table, and
  an answer of conflict is an application conflict for the client. When the call
  succeeds the grant of its last attempt is the lease; when the conflict budget is
  exhausted the caller gets the error lock busy; other failures keep their kind.
\<close>

definition acquire_endpoint ::
  "nat \<Rightarrow> (nat \<Rightarrow> rpc_outcome) \<Rightarrow> (nat \<Rightarrow> nat) \<Rightarrow> tablet_id \<Rightarrow> owner_id \<Rightarrow> meta_service
     \<Rightarrow> nat \<Rightarrow> rpc_outcome" where
  "acquire_endpoint secs transport clock t ow ms k =
     (case transport k of
        Success \<Rightarrow>
          (case fst (handle secs (clock k) (AcquireLease t ow) ms) of
             Conflict \<Rightarrow> ApplicationConflict
           | _ \<Rightarrow> Success)
      | other \<Rightarrow> other)"

definition acquire ::
  "retry_budgets \<Rightarrow> nat \<Rightarrow> (nat \<Rightarrow> rpc_outcome) \<Rightarrow> (nat \<Rightarrow> nat) \<Rightarrow> tablet_id \<Rightarrow> owner_id
     \<Rightarrow> meta_service \<Rightarrow> (error + TabletCompactionLease) \<times> meta_service" where
  "acquire b secs transport clock t ow ms =
     (case meta_service_call b (acquire_endpoint secs transport clock t ow ms) of
        (Inl e, n) \<Rightarrow> (if e = RpcConflict then (Inl LeaseBusy, ms) else (Inl e, ms))
      | (Inr _, n) \<Rightarrow>
          (case handle secs (clock (n - 1)) (AcquireLease t ow) ms of
             (LeaseGranted l, ms1) \<Rightarrow> (Inr l, ms1)
           | (_, ms1) \<Rightarrow> (Inl LeaseBusy, ms1)))"

text \<open>The lease duration as cloud/config.cpp defines it.\<close>

definition configured_lease_seconds :: "nat option" where
  "configured_lease_seconds =
     map_option nat (config_int ''delete_bitmap_lock_expiration_seconds'')"

text \<open>The states in which the lease of every tablet carries the tablet's last epoch.\<close>

definition epochs_current :: "meta_service \<Rightarrow> bool" where
  "epochs_current ms = (\<forall>t l. leases ms t = Some l \<longrightarrow> lease_epoch l = epochs ms t)"

section \<open>MetaServiceClient: the connection pool\<close>

text \<open>
  Modelled from the spec: the connection pool of MetaServiceClient (not among the sources;
  cloud/config.cpp only defines its size, the base age and the idle timeout of a
  connection). Section 3, ConnectionPool entry: a channel has a creation time, a last-used
  time, an age limit and an idle timeout; a channel older than its age limit or idle for
  longer than its idle timeout is retired and replaced, never reused. Section 4.3: the
  pool is bounded, and a discarded channel is recreated lazily, when its slot is next
  asked for. The identifier tells channel objects apart; the caller names the slot. Times
  are in milliseconds.
\<close>

record channel =
  channel_id :: nat
  created_at :: nat
  last_used :: nat
  age_limit :: nat
  idle_timeout :: nat

record connection_pool =
  channels :: "channel option list"
  next_channel_id :: nat

definition empty_pool :: "nat \<Rightarrow> connection_pool" where
  "empty_pool n = \<lparr>channels = replicate n None, next_channel_id = 0\<rparr>"

definition retired :: "nat \<Rightarrow> channel \<Rightarrow> bool" where
  "retired now c = (age_limit c < now - created_at c \<or> idle_timeout c < now - last_used c)"

definition create_channel :: "nat \<Rightarrow> nat \<Rightarrow> nat \<Rightarrow> nat \<Rightarrow> connection_pool
    \<Rightarrow> channel \<times> connection_pool" where
  "create_channel age idle now i p =
     (let c = \<lparr>channel_id = next_channel_id p, created_at = now, last_used = now,
               age_limit = age, idle_timeout = idle\<rparr>
      in (c, \<lparr>channels = (channels p)[i := Some c],
              next_channel_id = Suc (next_channel_id p)\<rparr>))"

definition get_channel :: "nat \<Rightarrow> nat \<Rightarrow> nat \<Rightarrow> nat \<Rightarrow> connection_pool
    \<Rightarrow> (channel \<times> connection_pool) option" where
  "get_channel age idle now i p =
     (if length (channels p) \<le> i then None
      else
        (case channels p ! i of
           None \<Rightarrow> Some (create_channel age idle now i p)
         | Some c \<Rightarrow>
             if retired now c then Some (create_channel age idle now i p)
             else Some (c\<lparr>last_used := now\<rparr>,
                        p\<lparr>channels := (channels p)[i := Some (c\<lparr>last_used := now\<rparr>)]\<rparr>)))"

text \<open>A sequence of calls, each at its time on its slot; the channels handed out, in order.\<close>

fun hand_out :: "nat \<Rightarrow> nat \<Rightarrow> (nat \<times> nat) list \<Rightarrow> connection_pool
    \<Rightarrow> (channel list \<times> connection_pool) option" where
  "hand_out age idle [] p = Some ([], p)"
| "hand_out age idle ((now, i) # rest) p =
     (case get_channel age idle now i p of
        None \<Rightarrow> None
      | Some (c, p1) \<Rightarrow>
          (case hand_out age idle rest p1 of
             None \<Rightarrow> None
           | Some (cs, p2) \<Rightarrow> Some (c # cs, p2)))"

text \<open>
  The pool holds a channel with identifier \<open>k\<close>; the pools whose identifiers are below the
  next one and differ from slot to slot; an identifier that was given out and is no
  longer in the pool.
\<close>

definition holds :: "connection_pool \<Rightarrow> nat \<Rightarrow> bool" where
  "holds p k = (\<exists>i<length (channels p). \<exists>c. channels p ! i = Some c \<and> channel_id c = k)"

definition pool_ok :: "connection_pool \<Rightarrow> bool" where
  "pool_ok p =
     ((\<forall>k. holds p k \<longrightarrow> k < next_channel_id p) \<and>
      (\<forall>i j c d. i < length (channels p) \<and> j < length (channels p) \<and>
          channels p ! i = Some c \<and> channels p ! j = Some d \<and> channel_id c = channel_id d
          \<longrightarrow> i = j))"

definition gone :: "connection_pool \<Rightarrow> nat \<Rightarrow> bool" where
  "gone p k = (k < next_channel_id p \<and> \<not> holds p k)"

text \<open>The age limit and the idle timeout as cloud/config.cpp defines them.\<close>

definition configured_age_ms :: "nat option" where
  "configured_age_ms =
     map_option (\<lambda>s. nat s * 1000) (config_int ''meta_service_connection_age_base_seconds'')"

definition configured_idle_ms :: "nat option" where
  "configured_idle_ms =
     map_option nat (config_int ''meta_service_idle_connection_timeout_ms'')"

section \<open>One entry\<close>

lemma consume_Some:
  "consume (Some a) n ts =
     Some (ts\<lparr>consumption := (consumption ts)(a := consumption ts a + uint n),
              calls := calls ts @ [Consume a n]\<rparr>)"
  by (simp add: consume_def)

lemma release_Some:
  "release (Some a) n ts =
     Some (ts\<lparr>consumption := (consumption ts)(a := consumption ts a - uint n),
              calls := calls ts @ [Release a n]\<rparr>)"
  by (simp add: release_def)

lemma set_tracking_bytes_Some:
  "set_tracking_bytes tb (Some m) vtb (Some v) e ts =
     Some (\<lparr>m_tracking_bytes = tb, m_value_tracking_bytes = vtb,
            m_mem_tracker = Some m, m_value_mem_tracker = Some v\<rparr>,
           \<lparr>consumption = (\<lambda>a. consumption ts a + charge tb m vtb v a),
            calls = calls ts @ [Consume m tb, Consume v vtb]\<rparr>)"
  by (auto simp: set_tracking_bytes_def Let_def consume_Some charge_def fun_eq_iff)

lemma set_tracking_bytes_None:
  "(set_tracking_bytes tb mt vtb vmt e ts = None) = (mt = None \<or> vmt = None)"
  by (auto simp: set_tracking_bytes_def Let_def consume_def split: option.splits)

lemma destructor_zero:
  "m_tracking_bytes e = 0 \<Longrightarrow> destructor e ts = Some ts"
  by (simp add: destructor_def)

lemma destructor_pos:
  "0 < tb \<Longrightarrow>
   destructor \<lparr>m_tracking_bytes = tb, m_value_tracking_bytes = vtb,
               m_mem_tracker = Some m, m_value_mem_tracker = Some v\<rparr> ts =
     Some \<lparr>consumption = (\<lambda>a. consumption ts a - charge tb m vtb v a),
           calls = calls ts @ [Release m tb, Release v vtb]\<rparr>"
  by (auto simp: destructor_def release_Some charge_def fun_eq_iff)

section \<open>Sequences: the invariants\<close>

lemma owed_nonneg: "0 \<le> owed e a"
  by (simp add: owed_def)

lemma destructor_owed:
  "destructor e ts = Some ts' \<Longrightarrow> consumption ts' a = consumption ts a - owed e a"
  by (auto simp: destructor_def release_def owed_def split: if_splits option.splits)

lemma set_tracking_bytes_owed_le:
  "set_tracking_bytes tb mt vtb vmt e ts = Some (e', ts') \<Longrightarrow>
     consumption ts a + owed e' a \<le> consumption ts' a"
  by (auto simp: set_tracking_bytes_def Let_def consume_def owed_def split: if_splits option.splits)

lemma set_tracking_bytes_owed_eq:
  "set_tracking_bytes tb mt vtb vmt e ts = Some (e', ts') \<Longrightarrow> 0 < tb \<Longrightarrow>
     consumption ts' a = consumption ts a + owed e' a"
  by (auto simp: set_tracking_bytes_def Let_def consume_def owed_def split: if_splits option.splits)

lemma total_owed_empty: "total_owed Map.empty a = 0"
  by (simp add: total_owed_def)

lemma total_owed_insert:
  assumes "finite (dom h)" and "h i = None"
  shows "total_owed (h(i \<mapsto> e)) a = total_owed h a + owed e a"
proof -
  have "i \<notin> dom h" using assms(2) by (simp add: domIff)
  moreover have "(\<Sum>j\<in>dom h. owed (the ((h(i \<mapsto> e)) j)) a) = (\<Sum>j\<in>dom h. owed (the (h j)) a)"
    using \<open>i \<notin> dom h\<close> by (intro sum.cong) auto
  ultimately show ?thesis using assms(1) by (simp add: total_owed_def)
qed

lemma total_owed_delete:
  assumes "finite (dom h)" and "h i = Some e"
  shows "total_owed (h(i := None)) a = total_owed h a - owed e a"
proof -
  have "i \<in> dom h" using assms(2) by (simp add: domIff)
  then have "(\<Sum>j\<in>dom h. owed (the (h j)) a) = owed (the (h i)) a + (\<Sum>j\<in>dom h - {i}. owed (the (h j)) a)"
    using assms(1) by (simp add: sum.remove)
  moreover have "(\<Sum>j\<in>dom h - {i}. owed (the ((h(i := None)) j)) a) = (\<Sum>j\<in>dom h - {i}. owed (the (h j)) a)"
    by (intro sum.cong) auto
  ultimately show ?thesis using assms(2) by (simp add: total_owed_def)
qed

lemma total_owed_update:
  assumes "finite (dom h)" and "h i = Some e"
  shows "total_owed (h(i \<mapsto> e')) a = total_owed h a - owed e a + owed e' a"
proof -
  have "h(i \<mapsto> e') = (h(i := None))(i \<mapsto> e')" by simp
  moreover have "finite (dom (h(i := None)))" using assms(1) by simp
  ultimately show ?thesis
    using total_owed_insert [of "h(i := None)" i e' a] total_owed_delete [OF assms, of a]
    by simp
qed

lemma step_finite:
  "step ev s = Some s' \<Longrightarrow> finite (dom (entries s)) \<Longrightarrow> finite (dom (entries s'))"
  by (cases ev) (auto split: option.splits)

lemma step_slack_mono:
  assumes "step ev s = Some s'" and "finite (dom (entries s))"
  shows "consumption (trk s) a - total_owed (entries s) a
           \<le> consumption (trk s') a - total_owed (entries s') a"
proof (cases ev)
  case (Create i tb mt vtb vmt)
  with assms show ?thesis
    by (auto split: option.splits simp: total_owed_insert dest: set_tracking_bytes_owed_le [where a = a])
next
  case (Retrack i tb mt vtb vmt)
  from assms(1) Retrack obtain e0 e ts where
    e0: "entries s i = Some e0" and
    set: "set_tracking_bytes tb mt vtb vmt e0 (trk s) = Some (e, ts)" and
    s': "s' = \<lparr>entries = (entries s)(i \<mapsto> e), trk = ts\<rparr>"
    by (auto split: option.splits)
  have "consumption (trk s) a + owed e a \<le> consumption ts a"
    by (rule set_tracking_bytes_owed_le [OF set])
  moreover have "0 \<le> owed e0 a" by (rule owed_nonneg)
  ultimately show ?thesis
    by (simp add: s' total_owed_update [OF assms(2) e0])
next
  case (Destroy i)
  with assms show ?thesis
    by (auto split: option.splits simp: total_owed_delete dest: destructor_owed [where a = a])
qed

lemma step_slack_eq:
  assumes "step ev s = Some s'" and "finite (dom (entries s))" and "tracked_once_positive ev"
  shows "consumption (trk s') a - total_owed (entries s') a
           = consumption (trk s) a - total_owed (entries s) a"
proof (cases ev)
  case (Create i tb mt vtb vmt)
  with assms show ?thesis
    by (auto split: option.splits simp: total_owed_insert dest: set_tracking_bytes_owed_eq [where a = a])
next
  case (Retrack i tb mt vtb vmt)
  with assms show ?thesis by simp
next
  case (Destroy i)
  with assms show ?thesis
    by (auto split: option.splits simp: total_owed_delete dest: destructor_owed [where a = a])
qed


lemma run_slack_mono:
  "run evs s = Some s' \<Longrightarrow> finite (dom (entries s)) \<Longrightarrow>
     consumption (trk s) a - total_owed (entries s) a
       \<le> consumption (trk s') a - total_owed (entries s') a"
proof (induction evs arbitrary: s)
  case Nil
  then show ?case by simp
next
  case (Cons ev evs)
  from Cons.prems(1) obtain s1 where s1: "step ev s = Some s1" and r: "run evs s1 = Some s'"
    by (auto split: option.splits)
  have "consumption (trk s) a - total_owed (entries s) a
          \<le> consumption (trk s1) a - total_owed (entries s1) a"
    by (rule step_slack_mono [OF s1 Cons.prems(2)])
  also have "\<dots> \<le> consumption (trk s') a - total_owed (entries s') a"
    by (rule Cons.IH [OF r step_finite [OF s1 Cons.prems(2)]])
  finally show ?case .
qed

lemma run_slack_eq:
  "run evs s = Some s' \<Longrightarrow> finite (dom (entries s)) \<Longrightarrow>
   \<forall>ev\<in>set evs. tracked_once_positive ev \<Longrightarrow>
     consumption (trk s') a - total_owed (entries s') a
       = consumption (trk s) a - total_owed (entries s) a"
proof (induction evs arbitrary: s)
  case Nil
  then show ?case by simp
next
  case (Cons ev evs)
  from Cons.prems(1) obtain s1 where s1: "step ev s = Some s1" and r: "run evs s1 = Some s'"
    by (auto split: option.splits)
  have "consumption (trk s') a - total_owed (entries s') a
          = consumption (trk s1) a - total_owed (entries s1) a"
    using Cons.prems(3) by (intro Cons.IH [OF r step_finite [OF s1 Cons.prems(2)]]) simp
  also have "\<dots> = consumption (trk s) a - total_owed (entries s) a"
    using Cons.prems(3) by (intro step_slack_eq [OF s1 Cons.prems(2)]) simp
  finally show ?case .
qed

lemma run_finite:
  "run evs s = Some s' \<Longrightarrow> finite (dom (entries s)) \<Longrightarrow> finite (dom (entries s'))"
  by (induction evs arbitrary: s) (auto split: option.splits dest: step_finite)

lemma total_owed_nonneg: "0 \<le> total_owed h a"
  by (simp add: total_owed_def sum_nonneg owed_nonneg)

lemma run_append: "run (xs @ ys) s = (case run xs s of None \<Rightarrow> None | Some s1 \<Rightarrow> run ys s1)"
  by (induction xs arbitrary: s) (auto split: option.splits)

lemma run_take:
  assumes "run evs s = Some s'"
  shows "\<exists>s1. run (take n evs) s = Some s1"
proof -
  have "run (take n evs @ drop n evs) s = Some s'" using assms by simp
  then show ?thesis unfolding run_append by (auto split: option.splits)
qed

lemma accounted_append: "accounted (xs @ ys) a = accounted xs a + accounted ys a"
proof (induction xs)
  case Nil
  then show ?case by simp
next
  case (Cons c xs)
  then show ?case by (cases c) simp_all
qed

lemma consume_accounted:
  "consume p n ts = Some ts' \<Longrightarrow>
     consumption ts' b - accounted (calls ts') b = consumption ts b - accounted (calls ts) b"
  by (auto simp: consume_def accounted_append split: option.splits)

lemma release_accounted:
  "release p n ts = Some ts' \<Longrightarrow>
     consumption ts' b - accounted (calls ts') b = consumption ts b - accounted (calls ts) b"
  by (auto simp: release_def accounted_append split: option.splits)

lemma set_tracking_bytes_accounted:
  assumes "set_tracking_bytes tb mt vtb vmt e ts = Some (e', ts')"
  shows "consumption ts' b - accounted (calls ts') b = consumption ts b - accounted (calls ts) b"
proof -
  from assms obtain ts1 where
    c1: "consume mt tb ts = Some ts1" and c2: "consume vmt vtb ts1 = Some ts'"
    by (auto simp: set_tracking_bytes_def Let_def split: option.splits)
  show ?thesis
    using consume_accounted [OF c1, of b] consume_accounted [OF c2, of b] by simp
qed

lemma destructor_accounted:
  assumes "destructor e ts = Some ts'"
  shows "consumption ts' b - accounted (calls ts') b = consumption ts b - accounted (calls ts) b"
proof (cases "0 < m_tracking_bytes e")
  case True
  with assms obtain ts1 where
    r1: "release (m_mem_tracker e) (m_tracking_bytes e) ts = Some ts1" and
    r2: "release (m_value_mem_tracker e) (m_value_tracking_bytes e) ts1 = Some ts'"
    by (auto simp: destructor_def split: option.splits)
  show ?thesis
    using release_accounted [OF r1, of b] release_accounted [OF r2, of b] by simp
next
  case False
  with assms show ?thesis by (simp add: destructor_def)
qed

lemma step_accounted:
  assumes "step ev s = Some s'"
  shows "consumption (trk s') b - accounted (calls (trk s')) b
           = consumption (trk s) b - accounted (calls (trk s)) b"
proof (cases ev)
  case (Create i tb mt vtb vmt)
  with assms show ?thesis
    by (auto split: option.splits dest: set_tracking_bytes_accounted [where b = b])
next
  case (Retrack i tb mt vtb vmt)
  with assms show ?thesis
    by (auto split: option.splits dest: set_tracking_bytes_accounted [where b = b])
next
  case (Destroy i)
  with assms show ?thesis
    by (auto split: option.splits dest: destructor_accounted [where b = b])
qed

lemma run_accounted:
  "run evs s = Some s' \<Longrightarrow>
     consumption (trk s') b - accounted (calls (trk s')) b
       = consumption (trk s) b - accounted (calls (trk s)) b"
proof (induction evs arbitrary: s)
  case Nil
  then show ?case by simp
next
  case (Cons ev evs)
  from Cons.prems obtain s1 where s1: "step ev s = Some s1" and r: "run evs s1 = Some s'"
    by (auto split: option.splits)
  show ?case using Cons.IH [OF r] step_accounted [OF s1, of b] by simp
qed

lemma prefixes_nonneg_Nil: "prefixes_nonneg [] a"
  by (simp add: prefixes_nonneg_def)

lemma prefixes_nonneg_all: "prefixes_nonneg cs a \<Longrightarrow> 0 \<le> accounted cs a"
  unfolding prefixes_nonneg_def using take_all [of cs "length cs"] by (metis order_refl)

lemma prefixes_nonneg_two:
  assumes "prefixes_nonneg xs a"
    and "0 \<le> accounted xs a + accounted [c1] a"
    and "0 \<le> accounted xs a + accounted [c1, c2] a"
  shows "prefixes_nonneg (xs @ [c1, c2]) a"
  unfolding prefixes_nonneg_def
proof
  fix k
  consider "k \<le> length xs" | "k = Suc (length xs)" | "Suc (Suc (length xs)) \<le> k" by linarith
  then show "0 \<le> accounted (take k (xs @ [c1, c2])) a"
  proof cases
    case 1
    with assms(1) show ?thesis by (simp add: prefixes_nonneg_def)
  next
    case 2
    then have "take k (xs @ [c1, c2]) = xs @ [c1]" by simp
    with assms(2) show ?thesis by (simp add: accounted_append)
  next
    case 3
    then have "take k (xs @ [c1, c2]) = xs @ [c1, c2]" by simp
    with assms(3) show ?thesis by (simp add: accounted_append)
  qed
qed

lemma total_owed_member:
  assumes "finite (dom h)" and "h i = Some e"
  shows "owed e a \<le> total_owed h a"
  using total_owed_delete [OF assms, of a] total_owed_nonneg [of "h(i := None)" a] by simp

lemma set_tracking_bytes_prefixes:
  assumes s: "set_tracking_bytes tb mt vtb vmt e ts = Some (e', ts')"
    and p: "prefixes_nonneg (calls ts) a"
  shows "prefixes_nonneg (calls ts') a"
proof -
  from s set_tracking_bytes_None [of tb mt vtb vmt e ts] obtain m v where
    mv: "mt = Some m" "vmt = Some v" by auto
  with s have c: "calls ts' = calls ts @ [Consume m tb, Consume v vtb]"
    by (auto simp: set_tracking_bytes_Some)
  have "0 \<le> accounted (calls ts) a" by (rule prefixes_nonneg_all [OF p])
  then show ?thesis unfolding c
    by (intro prefixes_nonneg_two [OF p]) simp_all
qed

lemma release_two_nonneg:
  fixes x y z :: int
  assumes "0 \<le> x" and "0 \<le> y"
    and "(if a = m then x else 0) + (if a = v then y else 0) \<le> z"
  shows "0 \<le> z - (if a = m then x else 0)
         \<and> 0 \<le> z - (if a = v then y else 0) - (if a = m then x else 0)"
  using assms by (auto split: if_splits)

lemma destructor_prefixes:
  assumes d: "destructor e ts = Some ts'"
    and p: "prefixes_nonneg (calls ts) a"
    and o: "owed e a \<le> accounted (calls ts) a"
  shows "prefixes_nonneg (calls ts') a"
proof (cases "0 < m_tracking_bytes e")
  case False
  with d p show ?thesis by (simp add: destructor_def)
next
  case True
  with d obtain m v where mv: "m_mem_tracker e = Some m" "m_value_mem_tracker e = Some v"
    by (auto simp: destructor_def release_def split: option.splits)
  with d True have c: "calls ts' = calls ts
      @ [Release m (m_tracking_bytes e), Release v (m_value_tracking_bytes e)]"
    by (auto simp: destructor_def release_Some)
  from o True mv have
    "(if a = m then uint (m_tracking_bytes e) else 0)
       + (if a = v then uint (m_value_tracking_bytes e) else 0) \<le> accounted (calls ts) a"
    by (auto simp: owed_def)
  from release_two_nonneg [OF _ _ this] have
    "0 \<le> accounted (calls ts) a + accounted [Release m (m_tracking_bytes e)] a"
    "0 \<le> accounted (calls ts) a
       + accounted [Release m (m_tracking_bytes e), Release v (m_value_tracking_bytes e)] a"
    by simp_all
  then show ?thesis unfolding c
    by (intro prefixes_nonneg_two [OF p])
qed

lemma step_accounts_ok:
  assumes st: "step ev s = Some s'" and ok: "accounts_ok s a"
  shows "accounts_ok s' a"
proof -
  from ok have fin: "finite (dom (entries s))"
    and eq: "consumption (trk s) a = accounted (calls (trk s)) a"
    and le: "total_owed (entries s) a \<le> consumption (trk s) a"
    and p: "prefixes_nonneg (calls (trk s)) a"
    by (simp_all add: accounts_ok_def)
  have fin': "finite (dom (entries s'))" by (rule step_finite [OF st fin])
  have eq': "consumption (trk s') a = accounted (calls (trk s')) a"
    using step_accounted [OF st, of a] eq by simp
  have le': "total_owed (entries s') a \<le> consumption (trk s') a"
    using step_slack_mono [OF st fin, of a] le by simp
  have p': "prefixes_nonneg (calls (trk s')) a"
  proof (cases ev)
    case (Create i tb mt vtb vmt)
    with st p show ?thesis
      by (auto split: option.splits dest: set_tracking_bytes_prefixes)
  next
    case (Retrack i tb mt vtb vmt)
    with st p show ?thesis
      by (auto split: option.splits dest: set_tracking_bytes_prefixes)
  next
    case (Destroy i)
    with st obtain e ts where e: "entries s i = Some e" and d: "destructor e (trk s) = Some ts"
      and s': "s' = \<lparr>entries = (entries s)(i := None), trk = ts\<rparr>"
      by (auto split: option.splits)
    from total_owed_member [OF fin e, of a] le eq
    have "owed e a \<le> accounted (calls (trk s)) a" by simp
    from destructor_prefixes [OF d p this] s' show ?thesis by simp
  qed
  from fin' eq' le' p' show ?thesis by (simp add: accounts_ok_def)
qed

lemma run_accounts_ok:
  "run evs s = Some s' \<Longrightarrow> accounts_ok s a \<Longrightarrow> accounts_ok s' a"
proof (induction evs arbitrary: s)
  case Nil
  then show ?case by simp
next
  case (Cons ev evs)
  from Cons.prems(1) obtain s1 where s1: "step ev s = Some s1" and r: "run evs s1 = Some s'"
    by (auto split: option.splits)
  from Cons.IH [OF r step_accounts_ok [OF s1 Cons.prems(2)]] show ?case .
qed

lemma accounts_ok_start: "accounts_ok (start fresh_trackers) a"
  by (simp add: accounts_ok_def start_def fresh_trackers_def total_owed_empty prefixes_nonneg_Nil)

text \<open>
  C5. Start from trackers on which nothing has been consumed. In every sequence of entry
  creations, further \<^verbatim>\<open>set_tracking_bytes\<close> calls and destructions that the program can
  execute, after every prefix of the sequence the counter of each tracker equals its
  accounted total (bytes consumed minus bytes released so far), and the accounted total
  is not negative then, nor was it after any earlier consume or release.
\<close>

theorem accounted_total_nonnegative:
  assumes "run evs (start fresh_trackers) = Some s'"
  shows "\<exists>s. run (take n evs) (start fresh_trackers) = Some s
           \<and> consumption (trk s) a = accounted (calls (trk s)) a
           \<and> 0 \<le> accounted (take k (calls (trk s))) a
           \<and> 0 \<le> accounted (calls (trk s)) a"
proof -
  from run_take [OF assms] obtain s where s: "run (take n evs) (start fresh_trackers) = Some s"
    by blast
  have ok: "accounts_ok s a" by (rule run_accounts_ok [OF s accounts_ok_start])
  then have "consumption (trk s) a = accounted (calls (trk s)) a"
    and p: "prefixes_nonneg (calls (trk s)) a"
    by (simp_all add: accounts_ok_def)
  moreover from p have "0 \<le> accounted (take k (calls (trk s))) a"
    by (simp add: prefixes_nonneg_def)
  moreover from p have "0 \<le> accounted (calls (trk s)) a" by (rule prefixes_nonneg_all)
  ultimately show ?thesis using s by blast
qed

text \<open>
  C1, as amended. For an entry that got its one \<^verbatim>\<open>set_tracking_bytes\<close> call with a
  positive entry byte count, the call makes one consume per tracker and the destructor
  makes exactly one release per tracker, of the same amount on the same tracker. In a
  sequence of creations (each with a positive entry byte count) and destructions, once
  no entry is left every tracker's counter is back at its value before the sequence.
\<close>

theorem destroy_all_restores_baseline:
  "(0 < tb \<longrightarrow>
      (\<exists>e ts1. set_tracking_bytes tb (Some m) vtb (Some v) new_LRUCacheValueBase ts = Some (e, ts1)
         \<and> calls ts1 = calls ts @ [Consume m tb, Consume v vtb]
         \<and> (\<forall>ts2. \<exists>ts3. destructor e ts2 = Some ts3
               \<and> calls ts3 = calls ts2 @ [Release m tb, Release v vtb])))
   \<and> ((\<forall>ev\<in>set evs. tracked_once_positive ev) \<longrightarrow>
        run evs (start ts) = Some s' \<longrightarrow> entries s' = Map.empty \<longrightarrow>
        consumption (trk s') = consumption ts)"
proof (intro conjI impI)
  assume "0 < tb"
  then show "\<exists>e ts1. set_tracking_bytes tb (Some m) vtb (Some v) new_LRUCacheValueBase ts = Some (e, ts1)
         \<and> calls ts1 = calls ts @ [Consume m tb, Consume v vtb]
         \<and> (\<forall>ts2. \<exists>ts3. destructor e ts2 = Some ts3
               \<and> calls ts3 = calls ts2 @ [Release m tb, Release v vtb])"
    by (simp add: set_tracking_bytes_Some destructor_pos)
next
  assume pos: "\<forall>ev\<in>set evs. tracked_once_positive ev"
    and r: "run evs (start ts) = Some s'" and e: "entries s' = Map.empty"
  have fin: "finite (dom (entries (start ts)))" by (simp add: start_def)
  show "consumption (trk s') = consumption ts"
  proof
    fix a
    have "consumption (trk s') a - total_owed (entries s') a
            = consumption (trk (start ts)) a - total_owed (entries (start ts)) a"
      by (rule run_slack_eq [OF r fin pos])
    then show "consumption (trk s') a = consumption ts a"
      by (simp add: e start_def total_owed_empty)
  qed
qed

text \<open>
  C3. With an entry tracker \<open>m\<close> and a separate value tracker \<open>v\<close>,
  \<^verbatim>\<open>set_tracking_bytes\<close> returns, and in the trackers it returns the entry byte count
  has been consumed on \<open>m\<close> and the value byte count on \<open>v\<close>, by one call each; no other
  tracker has changed.
\<close>

theorem set_tracking_bytes_consumes_both:
  "m \<noteq> v \<Longrightarrow>
   \<exists>e' ts'. set_tracking_bytes tb (Some m) vtb (Some v) e ts = Some (e', ts')
      \<and> calls ts' = calls ts @ [Consume m tb, Consume v vtb]
      \<and> consumption ts' m = consumption ts m + uint tb
      \<and> consumption ts' v = consumption ts v + uint vtb
      \<and> (\<forall>a. a \<noteq> m \<and> a \<noteq> v \<longrightarrow> consumption ts' a = consumption ts a)"
  by (simp add: set_tracking_bytes_Some charge_def)

theorem set_tracking_bytes_consumes_both_witness:
  "(1::addr) \<noteq> 2 \<and>
   (\<exists>e' ts'. set_tracking_bytes 64 (Some 1) 4096 (Some 2) new_LRUCacheValueBase fresh_trackers
                = Some (e', ts')
      \<and> calls ts' = [Consume 1 64, Consume 2 4096]
      \<and> consumption ts' 1 = 64 \<and> consumption ts' 2 = 4096 \<and> consumption ts' 3 = 0)"
  using set_tracking_bytes_consumes_both [of 1 2 64 4096 new_LRUCacheValueBase fresh_trackers]
  by (auto simp: fresh_trackers_def)

text \<open>
  C4. The destructor of an entry whose entry byte count is 0 returns the trackers as they
  are: no release is called, whatever the value byte count. After a
  \<^verbatim>\<open>set_tracking_bytes\<close> call with entry byte count 0 and a positive value byte count the
  value tracker has grown by the value bytes, and the destructor of that entry releases
  nothing.
\<close>

theorem destructor_zero_skips_release:
  "(m_tracking_bytes e = 0 \<longrightarrow> destructor e ts = Some ts)
   \<and> (0 < vtb \<longrightarrow>
        (\<exists>e' ts'. set_tracking_bytes 0 (Some m) vtb (Some v) e0 ts0 = Some (e', ts')
           \<and> calls ts' = calls ts0 @ [Consume m 0, Consume v vtb]
           \<and> consumption ts' v = consumption ts0 v + uint vtb
           \<and> consumption ts0 v < consumption ts' v
           \<and> (\<forall>ts2. destructor e' ts2 = Some ts2)))"
proof (intro conjI impI)
  assume "m_tracking_bytes e = 0"
  then show "destructor e ts = Some ts" by (rule destructor_zero)
next
  assume "0 < vtb"
  then have "0 < uint vtb" by (simp add: word_less_def)
  then show "\<exists>e' ts'. set_tracking_bytes 0 (Some m) vtb (Some v) e0 ts0 = Some (e', ts')
           \<and> calls ts' = calls ts0 @ [Consume m 0, Consume v vtb]
           \<and> consumption ts' v = consumption ts0 v + uint vtb
           \<and> consumption ts0 v < consumption ts' v
           \<and> (\<forall>ts2. destructor e' ts2 = Some ts2)"
    by (simp add: set_tracking_bytes_Some charge_def destructor_zero)
qed

theorem destructor_zero_skips_release_witness:
  "m_tracking_bytes new_LRUCacheValueBase = 0 \<and> (0::size_t) < 8
   \<and> destructor new_LRUCacheValueBase fresh_trackers = Some fresh_trackers
   \<and> (\<exists>e' ts'. set_tracking_bytes 0 (Some 1) 8 (Some 2) new_LRUCacheValueBase fresh_trackers
                  = Some (e', ts')
        \<and> calls ts' = [Consume 1 0, Consume 2 8]
        \<and> consumption ts' 2 = 8
        \<and> destructor e' ts' = Some ts')"
  using destructor_zero_skips_release [of new_LRUCacheValueBase fresh_trackers 8 1 2 new_LRUCacheValueBase fresh_trackers]
  by (auto simp: fresh_trackers_def new_LRUCacheValueBase_def)

text \<open>
  C10. Two \<^verbatim>\<open>set_tracking_bytes\<close> calls on the same entry make four consumes and no
  release: the trackers carry the charges of both calls. The destructor then releases only
  what the second call recorded (nothing when its entry byte count is 0), so after the
  destruction the charge of the first call is still on its trackers.
\<close>

theorem second_set_tracking_bytes_leaks_first:
  "\<exists>e1 ts1 e2 ts2 ts3.
      set_tracking_bytes tb1 (Some m1) vtb1 (Some v1) e ts = Some (e1, ts1)
    \<and> set_tracking_bytes tb2 (Some m2) vtb2 (Some v2) e1 ts1 = Some (e2, ts2)
    \<and> calls ts2 = calls ts @ [Consume m1 tb1, Consume v1 vtb1, Consume m2 tb2, Consume v2 vtb2]
    \<and> (\<forall>a. consumption ts2 a
              = consumption ts a + charge tb1 m1 vtb1 v1 a + charge tb2 m2 vtb2 v2 a)
    \<and> destructor e2 ts2 = Some ts3
    \<and> calls ts3 = calls ts2 @ (if 0 < tb2 then [Release m2 tb2, Release v2 vtb2] else [])
    \<and> (\<forall>a. consumption ts3 a
              = consumption ts a + charge tb1 m1 vtb1 v1 a
                + (if 0 < tb2 then 0 else charge tb2 m2 vtb2 v2 a))"
proof (cases "0 < tb2")
  case True
  then show ?thesis by (simp add: set_tracking_bytes_Some destructor_pos)
next
  case False
  then have "tb2 = 0" using word_neq_0_conv [of tb2] by blast
  then show ?thesis by (simp add: set_tracking_bytes_Some destructor_zero)
qed

theorem second_set_tracking_bytes_leaks_first_witness:
  "\<exists>e1 ts1 e2 ts2 ts3.
      set_tracking_bytes 64 (Some 1) 4096 (Some 2) new_LRUCacheValueBase fresh_trackers = Some (e1, ts1)
    \<and> set_tracking_bytes 32 (Some 3) 100 (Some 4) e1 ts1 = Some (e2, ts2)
    \<and> destructor e2 ts2 = Some ts3
    \<and> calls ts3 = [Consume 1 64, Consume 2 4096, Consume 3 32, Consume 4 100,
                    Release 3 32, Release 4 100]
    \<and> consumption ts3 1 = 64 \<and> consumption ts3 2 = 4096
    \<and> consumption ts3 3 = 0 \<and> consumption ts3 4 = 0"
  using second_set_tracking_bytes_leaks_first [of 64 1 4096 2 new_LRUCacheValueBase fresh_trackers 32 3 100 4]
  by (auto simp: fresh_trackers_def charge_def)


text \<open>
  C1, as stated, fails: an entry created with 0 entry bytes and 8 value bytes on tracker
  2 is destroyed without any release, so tracker 2 ends 8 bytes above its baseline
  although no entry is left.
\<close>

theorem zero_entry_bytes_leaves_value_bytes:
  "run [Create 0 0 (Some 1) 8 (Some 2), Destroy 0] (start fresh_trackers)
     = Some \<lparr>entries = Map.empty,
             trk = \<lparr>consumption = (consumption fresh_trackers)(2 := 8),
                    calls = [Consume 1 0, Consume 2 8]\<rparr>\<rparr>"
  by (auto simp: start_def fresh_trackers_def set_tracking_bytes_Some destructor_zero
      new_LRUCacheValueBase_def charge_def fun_eq_iff)

theorem destroy_all_restores_baseline_witness:
  "0 < (64::size_t)
   \<and> run [Create 0 64 (Some 1) 4096 (Some 2), Create 1 32 (Some 1) 100 (Some 3),
           Destroy 0, Destroy 1] (start fresh_trackers)
       = Some \<lparr>entries = Map.empty,
               trk = \<lparr>consumption = consumption fresh_trackers,
                      calls = [Consume 1 64, Consume 2 4096, Consume 1 32, Consume 3 100,
                               Release 1 64, Release 2 4096, Release 1 32, Release 3 100]\<rparr>\<rparr>
   \<and> (\<exists>e ts1 ts3. set_tracking_bytes 64 (Some 1) 4096 (Some 2) new_LRUCacheValueBase
                       fresh_trackers = Some (e, ts1)
         \<and> destructor e ts1 = Some ts3
         \<and> calls ts3 = [Consume 1 64, Consume 2 4096, Release 1 64, Release 2 4096])"
proof -
  let ?evs = "[Create 0 64 (Some 1) 4096 (Some 2), Create 1 32 (Some 1) 100 (Some 3),
               Destroy 0, Destroy 1]"
  let ?s = "\<lparr>entries = Map.empty,
             trk = \<lparr>consumption = consumption fresh_trackers,
                    calls = [Consume 1 64, Consume 2 4096, Consume 1 32, Consume 3 100,
                             Release 1 64, Release 2 4096, Release 1 32, Release 3 100]\<rparr>\<rparr>"
  have tb: "0 < (64::size_t)" by simp
  have pos: "\<forall>ev\<in>set ?evs. tracked_once_positive ev" by simp
  have r: "run ?evs (start fresh_trackers) = Some ?s"
    by (auto simp: start_def fresh_trackers_def set_tracking_bytes_Some destructor_pos
        new_LRUCacheValueBase_def charge_def fun_eq_iff)
  have e: "entries ?s = Map.empty" by simp
  note c = destroy_all_restores_baseline [of 64 1 4096 2 fresh_trackers ?evs ?s]
  from c pos r e have "consumption (trk ?s) = consumption fresh_trackers" by blast
  from c tb obtain e0 ts1 where
    s: "set_tracking_bytes 64 (Some 1) 4096 (Some 2) new_LRUCacheValueBase fresh_trackers
          = Some (e0, ts1)" and
    c1: "calls ts1 = calls fresh_trackers @ [Consume 1 64, Consume 2 4096]" and
    d: "\<forall>ts2. \<exists>ts3. destructor e0 ts2 = Some ts3
          \<and> calls ts3 = calls ts2 @ [Release 1 64, Release 2 4096]"
    by blast
  from d obtain ts3 where
    "destructor e0 ts1 = Some ts3" and "calls ts3 = calls ts1 @ [Release 1 64, Release 2 4096]"
    by blast
  with s c1 have "\<exists>e ts1 ts3. set_tracking_bytes 64 (Some 1) 4096 (Some 2) new_LRUCacheValueBase
                       fresh_trackers = Some (e, ts1)
         \<and> destructor e ts1 = Some ts3
         \<and> calls ts3 = [Consume 1 64, Consume 2 4096, Release 1 64, Release 2 4096]"
    by (simp add: fresh_trackers_def)
  with tb r show ?thesis by blast
qed

theorem accounted_total_nonnegative_witness:
  "run [Create 0 64 (Some 1) 4096 (Some 2), Destroy 0] (start fresh_trackers)
     = Some \<lparr>entries = Map.empty,
             trk = \<lparr>consumption = consumption fresh_trackers,
                    calls = [Consume 1 64, Consume 2 4096, Release 1 64, Release 2 4096]\<rparr>\<rparr>
   \<and> (\<exists>s. run (take 1 [Create 0 64 (Some 1) 4096 (Some 2), Destroy 0]) (start fresh_trackers)
             = Some s
          \<and> consumption (trk s) 2 = 4096
          \<and> accounted (calls (trk s)) 2 = 4096
          \<and> 0 \<le> accounted (take 1 (calls (trk s))) 2)"
proof -
  have r: "run [Create 0 64 (Some 1) 4096 (Some 2), Destroy 0] (start fresh_trackers)
     = Some \<lparr>entries = Map.empty,
             trk = \<lparr>consumption = consumption fresh_trackers,
                    calls = [Consume 1 64, Consume 2 4096, Release 1 64, Release 2 4096]\<rparr>\<rparr>"
    by (auto simp: start_def fresh_trackers_def set_tracking_bytes_Some destructor_pos
        new_LRUCacheValueBase_def charge_def fun_eq_iff)
  from accounted_total_nonnegative [OF r, where n = 1 and a = 2 and k = 1] obtain s where
    t: "run (take 1 [Create 0 64 (Some 1) 4096 (Some 2), Destroy 0]) (start fresh_trackers)
          = Some s" and
    a: "consumption (trk s) 2 = accounted (calls (trk s)) 2" and
    k: "0 \<le> accounted (take 1 (calls (trk s))) 2"
    by blast
  from t have "consumption (trk s) 2 = 4096"
    by (auto simp: start_def fresh_trackers_def set_tracking_bytes_Some
        new_LRUCacheValueBase_def charge_def)
  with r t a k show ?thesis by simp
qed

section \<open>The configured values\<close>

lemma configured_budgets_eq:
  "configured_budgets = Some \<lparr>rpc_retry_times = 20, rpc_timeout_retry_times = 2,
                          conflict_error_retry_times = 10\<rparr>"
  by code_simp

lemma config_conflict_retry_times:
  "config_int ''meta_service_conflict_error_retry_times'' = Some 10"
  by code_simp

lemma configured_lease_seconds_eq: "configured_lease_seconds = Some 10"
proof -
  have "config_int ''delete_bitmap_lock_expiration_seconds'' = Some 10" by code_simp
  then show ?thesis by (simp add: configured_lease_seconds_def)
qed

lemma configured_pool_eq: "configured_age_ms = Some 30000 \<and> configured_idle_ms = Some 0"
proof -
  have "config_int ''meta_service_connection_age_base_seconds'' = Some 30" by code_simp
  moreover have "config_int ''meta_service_idle_connection_timeout_ms'' = Some 0" by code_simp
  ultimately show ?thesis by (simp add: configured_age_ms_def configured_idle_ms_def)
qed

lemma knobs_list_all:
  "list_all (\<lambda>f. (knob_kinds f \<noteq> [] \<and> CapacityKnob \<notin> set (knob_kinds f) \<longrightarrow> field_mutable f)
      \<and> (CapacityKnob \<in> set (knob_kinds f) \<longrightarrow>
        field_name f = ''tablet_cache_capacity'' \<and> \<not> field_mutable f)) config_fields"
  by code_simp

section \<open>The retry loop\<close>

lemma retry_rpc_always_timeout:
  assumes "\<And>k. endpoint k = Timeout"
  shows "int nt < rpc_timeout_retry_times b \<Longrightarrow>
         retry_rpc b endpoint i nt nr nc
           = (Inl RpcTimeout, i + nat (rpc_timeout_retry_times b - int nt))"
proof (induction "nat (rpc_timeout_retry_times b - int nt)" arbitrary: i nt)
  case 0
  then show ?case by simp
next
  case (Suc n)
  show ?case
  proof (cases "rpc_timeout_retry_times b \<le> int (Suc nt)")
    case True
    with Suc.prems have "rpc_timeout_retry_times b = int nt + 1" by simp
    then show ?thesis
      by (subst retry_rpc.simps) (simp add: assms)
  next
    case False
    then have lt: "int (Suc nt) < rpc_timeout_retry_times b" by simp
    from Suc.hyps(2) have "n = nat (rpc_timeout_retry_times b - int (Suc nt))" by simp
    from Suc.hyps(1) [OF this lt]
    have "retry_rpc b endpoint (Suc i) (Suc nt) nr nc
            = (Inl RpcTimeout, Suc i + nat (rpc_timeout_retry_times b - int (Suc nt)))" .
    with False lt show ?thesis
      by (subst retry_rpc.simps) (simp add: assms nat_diff_distrib')
  qed
qed

lemma retry_rpc_always_conflict:
  assumes "\<And>k. endpoint k = ApplicationConflict"
  shows "int nc \<le> conflict_error_retry_times b \<Longrightarrow>
         retry_rpc b endpoint i nt nr nc
           = (Inl RpcConflict, Suc (i + nat (conflict_error_retry_times b - int nc)))"
proof (induction "nat (conflict_error_retry_times b - int nc)" arbitrary: i nc)
  case 0
  then have "conflict_error_retry_times b = int nc" by simp
  then show ?case
    by (subst retry_rpc.simps) (simp add: assms)
next
  case (Suc n)
  then have lt: "int nc < conflict_error_retry_times b" by linarith
  then have le: "int (Suc nc) \<le> conflict_error_retry_times b" by simp
  from Suc.hyps(2) have "n = nat (conflict_error_retry_times b - int (Suc nc))" by simp
  from Suc.hyps(1) [OF this le]
  have "retry_rpc b endpoint (Suc i) nt nr (Suc nc)
          = (Inl RpcConflict, Suc (Suc i + nat (conflict_error_retry_times b - int (Suc nc))))" .
  with lt show ?case
    by (subst retry_rpc.simps) (simp add: assms nat_diff_distrib')
qed

lemma retry_rpc_attempts: "i < snd (retry_rpc b ep i nt nr nc)"
proof (induction b ep i nt nr nc rule: retry_rpc.induct)
  case (1 b ep i nt nr nc)
  show ?case
  proof (cases "ep i")
    case Success
    then show ?thesis by (subst retry_rpc.simps) simp
  next
    case Timeout
    with 1(1) show ?thesis by (subst retry_rpc.simps) (auto dest: Suc_lessD)
  next
    case ConnectionError
    with 1(2) show ?thesis by (subst retry_rpc.simps) (auto dest: Suc_lessD)
  next
    case ApplicationConflict
    with 1(3) show ?thesis by (subst retry_rpc.simps) (auto dest: Suc_lessD)
  qed
qed

lemma retry_rpc_Inr:
  "retry_rpc b ep i nt nr nc = (Inr u, n) \<Longrightarrow> 0 < n \<and> ep (n - 1) = Success"
proof (induction b ep i nt nr nc rule: retry_rpc.induct)
  case (1 b ep i nt nr nc)
  show ?case
  proof (cases "ep i")
    case Success
    with 1(4) show ?thesis by (subst (asm) retry_rpc.simps) auto
  next
    case Timeout
    with 1(4) have "\<not> rpc_timeout_retry_times b \<le> int (Suc nt)"
      and "retry_rpc b ep (Suc i) (Suc nt) nr nc = (Inr u, n)"
      by (subst (asm) retry_rpc.simps, auto split: if_splits)+
    with 1(1) Timeout show ?thesis by blast
  next
    case ConnectionError
    with 1(4) have "\<not> rpc_retry_times b \<le> int nr"
      and "retry_rpc b ep (Suc i) nt (Suc nr) nc = (Inr u, n)"
      by (subst (asm) retry_rpc.simps, auto split: if_splits)+
    with 1(2) ConnectionError show ?thesis by blast
  next
    case ApplicationConflict
    with 1(4) have "\<not> conflict_error_retry_times b \<le> int nc"
      and "retry_rpc b ep (Suc i) nt nr (Suc nc) = (Inr u, n)"
      by (subst (asm) retry_rpc.simps, auto split: if_splits)+
    with 1(3) ApplicationConflict show ?thesis by blast
  qed
qed

lemma retry_rpc_only_conflicts:
  "(\<forall>k. ep k = ApplicationConflict) \<Longrightarrow> fst (retry_rpc b ep i nt nr nc) = Inl RpcConflict"
proof (induction b ep i nt nr nc rule: retry_rpc.induct)
  case (1 b ep i nt nr nc)
  from 1(4) have c: "ep i = ApplicationConflict" by simp
  show ?case
  proof (cases "conflict_error_retry_times b \<le> int nc")
    case True
    with c show ?thesis by (subst retry_rpc.simps) simp
  next
    case False
    have "fst (retry_rpc b ep (Suc i) nt nr (Suc nc)) = Inl RpcConflict"
      by (rule 1(3) [OF c False 1(4)])
    with c False show ?thesis by (subst retry_rpc.simps) simp
  qed
qed

lemma retry_rpc_no_success:
  assumes "\<forall>k. ep k \<noteq> Success"
  shows "\<exists>e n. retry_rpc b ep i nt nr nc = (Inl e, n)"
proof (cases "retry_rpc b ep i nt nr nc")
  case (Pair r n)
  show ?thesis
  proof (cases r)
    case (Inl e)
    with Pair show ?thesis by simp
  next
    case (Inr u)
    with Pair retry_rpc_Inr [of b ep i nt nr nc u n] assms show ?thesis by simp
  qed
qed

section \<open>The lease protocol: acquisitions and epochs\<close>

lemma handle_acquire_live:
  "leases ms t = Some l \<Longrightarrow> \<not> expired now l \<Longrightarrow>
     handle secs now (AcquireLease t ow) ms = (Conflict, ms)"
  by simp

lemma acquire_endpoint_live:
  assumes "leases ms t = Some l" and "\<not> expired (clock k) l"
  shows "acquire_endpoint secs transport clock t ow ms k \<noteq> Success"
  using assms by (cases "transport k") (simp_all add: acquire_endpoint_def)

lemma acquire_endpoint_live_delivered:
  assumes "leases ms t = Some l" and "\<not> expired (clock k) l" and "transport k = Success"
  shows "acquire_endpoint secs transport clock t ow ms k = ApplicationConflict"
  using assms by (simp add: acquire_endpoint_def)

lemma acquire_live_fails:
  assumes "leases ms t = Some l" and "\<forall>k. \<not> expired (clock k) l"
  shows "\<exists>e. acquire b secs transport clock t ow ms = (Inl e, ms)"
proof -
  have "\<forall>k. acquire_endpoint secs transport clock t ow ms k \<noteq> Success"
    using assms acquire_endpoint_live by blast
  from retry_rpc_no_success [OF this] obtain e n where
    "meta_service_call b (acquire_endpoint secs transport clock t ow ms) = (Inl e, n)"
    unfolding meta_service_call_def by blast
  then show ?thesis by (simp add: acquire_def)
qed

lemma acquire_live_busy:
  assumes "leases ms t = Some l" and "\<forall>k. \<not> expired (clock k) l" and "\<forall>k. transport k = Success"
  shows "acquire b secs transport clock t ow ms = (Inl LeaseBusy, ms)"
proof -
  have "\<forall>k. acquire_endpoint secs transport clock t ow ms k = ApplicationConflict"
    using assms acquire_endpoint_live_delivered by blast
  from retry_rpc_only_conflicts [OF this, of b 0 0 0 0]
  have "fst (meta_service_call b (acquire_endpoint secs transport clock t ow ms)) = Inl RpcConflict"
    by (simp add: meta_service_call_def)
  then show ?thesis by (auto simp: acquire_def split: prod.splits sum.splits)
qed

lemma grant_epochs:
  "grant secs now t ow ms = (rep, ms1) \<Longrightarrow>
     (\<exists>l. rep = LeaseGranted l \<and> lease_epoch l = epochs ms t + 1 \<and> lease_owner l = ow
           \<and> lease_tablet l = t \<and> lease_expiration l = now + secs \<and> leases ms1 t = Some l)
     \<and> epochs ms1 t = epochs ms t + 1 \<and> (\<forall>u. u \<noteq> t \<longrightarrow> epochs ms1 u = epochs ms u)"
  by (auto simp: grant_def Let_def)

lemma handle_epochs_mono:
  "handle secs now r ms = (rep, ms1) \<Longrightarrow> epochs ms t \<le> epochs ms1 t"
  by (cases r) (auto simp: grant_def Let_def split: option.splits if_splits)

lemma handle_granted:
  "handle secs now (AcquireLease t ow) ms = (LeaseGranted l, ms1) \<Longrightarrow>
     lease_epoch l = epochs ms t + 1 \<and> epochs ms1 t = epochs ms t + 1 \<and> lease_owner l = ow"
  by (auto simp: grant_def Let_def split: option.splits if_splits)

lemma serve_length: "serve secs reqs ms = (reps, ms1) \<Longrightarrow> length reps = length reqs"
  by (induction reqs arbitrary: ms reps) (auto split: prod.splits)

lemma serve_epochs_mono:
  "serve secs reqs ms = (reps, ms1) \<Longrightarrow> epochs ms t \<le> epochs ms1 t"
proof (induction reqs arbitrary: ms reps)
  case Nil
  then show ?case by simp
next
  case (Cons a reqs)
  obtain now r where a: "a = (now, r)" by (cases a)
  from Cons.prems a obtain rep ms0 reps0 where
    h: "handle secs now r ms = (rep, ms0)" and s: "serve secs reqs ms0 = (reps0, ms1)"
    by (auto split: prod.splits)
  from handle_epochs_mono [OF h] Cons.IH [OF s] show ?case by (rule order_trans)
qed

lemma serve_granted_bounds:
  "serve secs reqs ms = (reps, ms1) \<Longrightarrow> j < length reqs \<Longrightarrow>
   snd (reqs ! j) = AcquireLease t ow \<Longrightarrow> reps ! j = LeaseGranted l \<Longrightarrow>
     epochs ms t < lease_epoch l \<and> lease_epoch l \<le> epochs ms1 t"
proof (induction reqs arbitrary: ms reps j)
  case Nil
  then show ?case by simp
next
  case (Cons a reqs)
  obtain now r where a: "a = (now, r)" by (cases a)
  from Cons.prems(1) a obtain rep ms0 reps0 where
    h: "handle secs now r ms = (rep, ms0)" and s: "serve secs reqs ms0 = (reps0, ms1)"
    and reps: "reps = rep # reps0"
    by (auto split: prod.splits)
  show ?case
  proof (cases j)
    case 0
    with Cons.prems a reps h have g: "handle secs now (AcquireLease t ow) ms = (LeaseGranted l, ms0)"
      by simp
    from handle_granted [OF g] serve_epochs_mono [OF s, of t] show ?thesis by simp
  next
    case (Suc j0)
    with Cons.prems reps have "j0 < length reqs" "snd (reqs ! j0) = AcquireLease t ow"
      "reps0 ! j0 = LeaseGranted l" by simp_all
    from Cons.IH [OF s this] handle_epochs_mono [OF h, of t] show ?thesis by simp
  qed
qed

lemma serve_epochs_increase:
  "serve secs reqs ms = (reps, ms1) \<Longrightarrow> i < j \<Longrightarrow> j < length reqs \<Longrightarrow>
   snd (reqs ! i) = AcquireLease t o1 \<Longrightarrow> reps ! i = LeaseGranted l1 \<Longrightarrow>
   snd (reqs ! j) = AcquireLease t o2 \<Longrightarrow> reps ! j = LeaseGranted l2 \<Longrightarrow>
     lease_epoch l1 < lease_epoch l2"
proof (induction reqs arbitrary: ms reps i j)
  case Nil
  then show ?case by simp
next
  case (Cons a reqs)
  obtain now r where a: "a = (now, r)" by (cases a)
  from Cons.prems(1) a obtain rep ms0 reps0 where
    h: "handle secs now r ms = (rep, ms0)" and s: "serve secs reqs ms0 = (reps0, ms1)"
    and reps: "reps = rep # reps0"
    by (auto split: prod.splits)
  from Cons.prems(2) obtain j0 where j: "j = Suc j0" by (cases j) auto
  with Cons.prems reps have j0: "j0 < length reqs" "snd (reqs ! j0) = AcquireLease t o2"
    "reps0 ! j0 = LeaseGranted l2" by simp_all
  show ?case
  proof (cases i)
    case 0
    with Cons.prems a reps h have g: "handle secs now (AcquireLease t o1) ms = (LeaseGranted l1, ms0)"
      by simp
    from handle_granted [OF g] serve_granted_bounds [OF s j0] show ?thesis by simp
  next
    case (Suc i0)
    with Cons.prems reps j have "i0 < j0" "snd (reqs ! i0) = AcquireLease t o1"
      "reps0 ! i0 = LeaseGranted l1" by simp_all
    from Cons.IH [OF s this(1) j0(1) this(2,3) j0(2,3)] show ?thesis .
  qed
qed

lemma handle_epochs_current:
  "handle secs now r ms = (rep, ms1) \<Longrightarrow> epochs_current ms \<Longrightarrow> epochs_current ms1"
  by (cases r) (auto simp: epochs_current_def grant_def Let_def split: option.splits if_splits)

lemma serve_epochs_current:
  "serve secs reqs ms = (reps, ms1) \<Longrightarrow> epochs_current ms \<Longrightarrow> epochs_current ms1"
proof (induction reqs arbitrary: ms reps)
  case Nil
  then show ?case by simp
next
  case (Cons a reqs)
  obtain now r where a: "a = (now, r)" by (cases a)
  from Cons.prems(1) a obtain rep ms0 reps0 where
    h: "handle secs now r ms = (rep, ms0)" and s: "serve secs reqs ms0 = (reps0, ms1)"
    by (auto split: prod.splits)
  from Cons.IH [OF s handle_epochs_current [OF h Cons.prems(2)]] show ?case .
qed

lemma epochs_current_empty: "epochs_current empty_meta_service"
  by (simp add: epochs_current_def empty_meta_service_def)

lemma update_stale_rejected:
  "epochs_current ms \<Longrightarrow> e \<noteq> epochs ms t \<Longrightarrow>
     handle secs now (UpdateDeleteBitmap t ow e) ms = (Rejected, ms)"
  by (auto simp: epochs_current_def split: option.splits)

lemma update_expired_rejected:
  "leases ms t = Some l \<Longrightarrow> expired now l \<Longrightarrow>
     handle secs now (UpdateDeleteBitmap t ow e) ms = (Rejected, ms)"
  by simp


lemma acquire_granted:
  assumes "acquire b secs transport clock t ow ms = (Inr l, ms1)"
  shows "\<exists>k. handle secs (clock k) (AcquireLease t ow) ms = (LeaseGranted l, ms1)"
proof -
  from assms obtain u n where
    "meta_service_call b (acquire_endpoint secs transport clock t ow ms) = (Inr u, n)"
    by (auto simp: acquire_def split: prod.splits sum.splits if_splits)
  with assms have "handle secs (clock (n - 1)) (AcquireLease t ow) ms = (LeaseGranted l, ms1)"
    by (auto simp: acquire_def split: prod.splits ms_reply.splits)
  then show ?thesis by blast
qed

section \<open>The connection pool: retired channels\<close>

lemma pool_ok_empty: "pool_ok (empty_pool n)"
  by (auto simp: pool_ok_def holds_def empty_pool_def)

lemma get_channel_cases:
  assumes "get_channel age idle now i p = Some (c, p1)"
  obtains (fresh) "i < length (channels p)"
      "channels p ! i = None \<or> (\<exists>c0. channels p ! i = Some c0 \<and> retired now c0)"
      "c = \<lparr>channel_id = next_channel_id p, created_at = now, last_used = now,
             age_limit = age, idle_timeout = idle\<rparr>"
      "p1 = \<lparr>channels = (channels p)[i := Some c], next_channel_id = Suc (next_channel_id p)\<rparr>"
    | (reuse) c0 where "i < length (channels p)" "channels p ! i = Some c0" "\<not> retired now c0"
      "c = c0\<lparr>last_used := now\<rparr>"
      "p1 = p\<lparr>channels := (channels p)[i := Some c]\<rparr>"
  using assms
  by (auto simp: get_channel_def create_channel_def Let_def split: if_splits option.splits)

lemma get_channel_total:
  "i < length (channels p) \<Longrightarrow> \<exists>c p1. get_channel age idle now i p = Some (c, p1)"
  by (auto simp: get_channel_def create_channel_def Let_def split: option.splits)

lemma get_channel_not_retired:
  assumes "get_channel age idle now i p = Some (c, p1)"
  shows "\<not> retired now c"
  using assms by (cases rule: get_channel_cases) (auto simp: retired_def)

lemma get_channel_slot:
  assumes "get_channel age idle now i p = Some (c, p1)"
  shows "i < length (channels p1) \<and> channels p1 ! i = Some c \<and> holds p1 (channel_id c)
         \<and> length (channels p1) = length (channels p)"
  using assms by (cases rule: get_channel_cases) (auto simp: holds_def)

lemma get_channel_holds:
  assumes "get_channel age idle now i p = Some (c, p1)" and "holds p1 k"
  shows "holds p k \<or> k = next_channel_id p"
  using assms(1)
proof (cases rule: get_channel_cases)
  case fresh
  from assms(2) obtain j d where
    j: "j < length (channels p1)" "channels p1 ! j = Some d" "channel_id d = k"
    by (auto simp: holds_def)
  show ?thesis
  proof (cases "j = i")
    case True
    with j fresh have "Some d = Some c" by simp
    with j(3) fresh(3) show ?thesis by simp
  next
    case False
    with j fresh have "j < length (channels p)" "channels p ! j = Some d" by simp_all
    with j(3) show ?thesis by (auto simp: holds_def)
  qed
next
  case (reuse c0)
  from assms(2) obtain j d where
    j: "j < length (channels p1)" "channels p1 ! j = Some d" "channel_id d = k"
    by (auto simp: holds_def)
  show ?thesis
  proof (cases "j = i")
    case True
    with j reuse have "d = c0\<lparr>last_used := now\<rparr>" by simp
    with j(3) have "channel_id c0 = k" by simp
    with reuse show ?thesis by (auto simp: holds_def)
  next
    case False
    with j reuse have "j < length (channels p)" "channels p ! j = Some d" by simp_all
    with j(3) show ?thesis by (auto simp: holds_def)
  qed
qed

lemma get_channel_next:
  assumes "get_channel age idle now i p = Some (c, p1)"
  shows "next_channel_id p \<le> next_channel_id p1"
  using assms by (cases rule: get_channel_cases) auto

lemma holds_below: "pool_ok p \<Longrightarrow> j < length (channels p) \<Longrightarrow> channels p ! j = Some d \<Longrightarrow>
    channel_id d < next_channel_id p"
  by (auto simp: pool_ok_def holds_def)

lemma pool_ok_distinct: "pool_ok p \<Longrightarrow> a < length (channels p) \<Longrightarrow> b < length (channels p) \<Longrightarrow>
    channels p ! a = Some c \<Longrightarrow> channels p ! b = Some d \<Longrightarrow> channel_id c = channel_id d \<Longrightarrow> a = b"
  unfolding pool_ok_def by blast

lemma get_channel_pool_ok:
  assumes g: "get_channel age idle now i p = Some (c, p1)" and ok: "pool_ok p"
  shows "pool_ok p1"
  using g
proof (cases rule: get_channel_cases)
  case fresh
  have id: "channel_id c = next_channel_id p" using fresh(3) by simp
  have len: "length (channels p1) = length (channels p)" using fresh(4) by simp
  have nth: "\<And>j. j < length (channels p) \<Longrightarrow>
      channels p1 ! j = (if j = i then Some c else channels p ! j)"
    using fresh(4) by (simp add: nth_list_update)
  have nxt: "next_channel_id p1 = Suc (next_channel_id p)" using fresh(4) by simp
  have below: "\<And>j d. j < length (channels p) \<Longrightarrow> channels p1 ! j = Some d \<Longrightarrow>
      channel_id d < next_channel_id p1 \<and> (j \<noteq> i \<longrightarrow> channel_id d < next_channel_id p)"
  proof -
    fix j d assume j: "j < length (channels p)" and d: "channels p1 ! j = Some d"
    show "channel_id d < next_channel_id p1 \<and> (j \<noteq> i \<longrightarrow> channel_id d < next_channel_id p)"
    proof (cases "j = i")
      case True
      with d nth [OF j] id nxt show ?thesis by simp
    next
      case False
      with d nth [OF j] have "channels p ! j = Some d" by simp
      from holds_below [OF ok j this] nxt show ?thesis by simp
    qed
  qed
  show ?thesis
    unfolding pool_ok_def holds_def len
  proof (intro conjI allI impI)
    fix k assume "\<exists>j<length (channels p). \<exists>d. channels p1 ! j = Some d \<and> channel_id d = k"
    with below show "k < next_channel_id p1" by blast
  next
    fix a b x y
    assume h: "a < length (channels p) \<and> b < length (channels p) \<and>
      channels p1 ! a = Some x \<and> channels p1 ! b = Some y \<and> channel_id x = channel_id y"
    then have a: "a < length (channels p)" and b: "b < length (channels p)"
      and x: "channels p1 ! a = Some x" and y: "channels p1 ! b = Some y"
      and e: "channel_id x = channel_id y" by simp_all
    show "a = b"
    proof (cases "a = i")
      case True
      with x nth [OF a] have "x = c" by simp
      with e id below [OF b y] True show ?thesis by auto
    next
      case False
      show ?thesis
      proof (cases "b = i")
        case True
        with y nth [OF b] have "y = c" by simp
        with e id below [OF a x] True show ?thesis by auto
      next
        case bf: False
        with False x y nth [OF a] nth [OF b]
        have "channels p ! a = Some x" "channels p ! b = Some y" by simp_all
        with e show ?thesis using pool_ok_distinct [OF ok a b] by blast
      qed
    qed
  qed
next
  case (reuse c0)
  have id: "channel_id c = channel_id c0" using reuse(4) by simp
  have len: "length (channels p1) = length (channels p)" using reuse(5) by simp
  have nth: "\<And>j. j < length (channels p) \<Longrightarrow>
      channels p1 ! j = (if j = i then Some c else channels p ! j)"
    using reuse(5) by (simp add: nth_list_update)
  have nxt: "next_channel_id p1 = next_channel_id p" using reuse(5) by simp
  have orig: "\<And>j d. j < length (channels p) \<Longrightarrow> channels p1 ! j = Some d \<Longrightarrow>
      \<exists>d0. channels p ! j = Some d0 \<and> channel_id d0 = channel_id d"
    using nth id reuse(2) by (auto split: if_splits)
  show ?thesis
    unfolding pool_ok_def holds_def len
  proof (intro conjI allI impI)
    fix k assume "\<exists>j<length (channels p). \<exists>d. channels p1 ! j = Some d \<and> channel_id d = k"
    then obtain j d where j: "j < length (channels p)" "channels p1 ! j = Some d" "channel_id d = k"
      by blast
    from orig [OF j(1,2)] obtain d0 where "channels p ! j = Some d0" "channel_id d0 = channel_id d"
      by blast
    with holds_below [OF ok j(1)] j(3) nxt show "k < next_channel_id p1" by simp
  next
    fix a b x y
    assume h: "a < length (channels p) \<and> b < length (channels p) \<and>
      channels p1 ! a = Some x \<and> channels p1 ! b = Some y \<and> channel_id x = channel_id y"
    from h orig [of a x] obtain x0 where x0: "channels p ! a = Some x0" "channel_id x0 = channel_id x"
      by blast
    from h orig [of b y] obtain y0 where y0: "channels p ! b = Some y0" "channel_id y0 = channel_id y"
      by blast
    from h x0 y0 show "a = b" using pool_ok_distinct [OF ok, of a b x0 y0] by simp
  qed
qed

lemma get_channel_gone:
  assumes g: "get_channel age idle now i p = Some (c, p1)" and ok: "pool_ok p"
    and gone: "gone p k"
  shows "gone p1 k \<and> channel_id c \<noteq> k"
proof -
  from gone have k: "k < next_channel_id p" "\<not> holds p k" by (simp_all add: gone_def)
  have nh: "\<not> holds p1 k"
  proof
    assume "holds p1 k"
    from get_channel_holds [OF g this] k show False by simp
  qed
  moreover from get_channel_slot [OF g] have "holds p1 (channel_id c)" by simp
  ultimately have "channel_id c \<noteq> k" by auto
  with nh k(1) get_channel_next [OF g] show ?thesis by (simp add: gone_def)
qed

lemma get_channel_replaces:
  assumes g: "get_channel age idle now i p = Some (c, p1)" and ok: "pool_ok p"
    and c0: "channels p ! i = Some c0" and r: "retired now c0"
  shows "gone p1 (channel_id c0) \<and> channel_id c = next_channel_id p \<and> created_at c = now
         \<and> channel_id c \<noteq> channel_id c0"
  using g
proof (cases rule: get_channel_cases)
  case fresh
  have lt: "channel_id c0 < next_channel_id p"
    using holds_below [OF ok fresh(1) c0] .
  have "\<not> holds p1 (channel_id c0)"
  proof
    assume "holds p1 (channel_id c0)"
    then obtain j d where j: "j < length (channels p1)" "channels p1 ! j = Some d"
      "channel_id d = channel_id c0" by (auto simp: holds_def)
    show False
    proof (cases "j = i")
      case True
      with j fresh have "d = c" by simp
      with j(3) fresh(3) lt show False by simp
    next
      case False
      with j fresh have jj: "j < length (channels p)" "channels p ! j = Some d" by simp_all
      from pool_ok_distinct [OF ok jj(1) fresh(1) jj(2) c0 j(3)] False show False by simp
    qed
  qed
  with lt fresh show ?thesis by (simp add: gone_def)
next
  case (reuse c1)
  with c0 r show ?thesis by simp
qed

lemma hand_out_pool_ok:
  "hand_out age idle cs p = Some (hs, p1) \<Longrightarrow> pool_ok p \<Longrightarrow> pool_ok p1"
proof (induction cs arbitrary: p hs)
  case Nil
  then show ?case by simp
next
  case (Cons a cs)
  obtain now i where a: "a = (now, i)" by (cases a)
  from Cons.prems(1) a obtain c p0 hs0 where
    g: "get_channel age idle now i p = Some (c, p0)" and h: "hand_out age idle cs p0 = Some (hs0, p1)"
    by (auto split: option.splits)
  from Cons.IH [OF h get_channel_pool_ok [OF g Cons.prems(2)]] show ?case .
qed

lemma hand_out_gone:
  "hand_out age idle cs p = Some (hs, p1) \<Longrightarrow> pool_ok p \<Longrightarrow> gone p k \<Longrightarrow>
     \<forall>d\<in>set hs. channel_id d \<noteq> k"
proof (induction cs arbitrary: p hs)
  case Nil
  then show ?case by simp
next
  case (Cons a cs)
  obtain now i where a: "a = (now, i)" by (cases a)
  from Cons.prems(1) a obtain c p0 hs0 where
    g: "get_channel age idle now i p = Some (c, p0)" and h: "hand_out age idle cs p0 = Some (hs0, p1)"
    and hs: "hs = c # hs0"
    by (auto split: option.splits)
  from get_channel_gone [OF g Cons.prems(2,3)] have gk: "gone p0 k" and ck: "channel_id c \<noteq> k"
    by simp_all
  from Cons.IH [OF h get_channel_pool_ok [OF g Cons.prems(2)] gk] ck hs show ?case by simp
qed

lemma retired_later: "retired t0 c \<Longrightarrow> t0 \<le> now \<Longrightarrow> retired now c"
  by (auto simp: retired_def)

section \<open>The configuration, the retries, the leases and the pool: the properties\<close>

text \<open>
  C8, as stated, fails: \<^verbatim>\<open>tablet_cache_capacity\<close>, a capacity, is defined with
  \<^verbatim>\<open>DEFINE_Int64\<close> and is not mutable.
\<close>

theorem tablet_cache_capacity_not_mutable:
  "lookup_field ''tablet_cache_capacity'' config_fields
     = Some (DEFINE_Int64 ''tablet_cache_capacity'' ''100000'')
   \<and> knob_kinds (DEFINE_Int64 ''tablet_cache_capacity'' ''100000'') = [CapacityKnob]
   \<and> field_mutable (DEFINE_Int64 ''tablet_cache_capacity'' ''100000'') = False"
  by code_simp

text \<open>
  C8, as amended. Among the fields of cloud/config.cpp, every timeout, retry count,
  interval and thread factor is a mutable field; the one capacity,
  \<^verbatim>\<open>tablet_cache_capacity\<close>, is a field that is not mutable.
\<close>

theorem knobs_mutable_except_capacity:
  "\<forall>f\<in>set config_fields.
     (knob_kinds f \<noteq> [] \<and> CapacityKnob \<notin> set (knob_kinds f) \<longrightarrow> field_mutable f)
   \<and> (CapacityKnob \<in> set (knob_kinds f) \<longrightarrow>
        field_name f = ''tablet_cache_capacity'' \<and> \<not> field_mutable f)"
  using knobs_list_all by (simp add: list_all_iff)

theorem knobs_mutable_except_capacity_witness:
  "DEFINE_mInt32 ''meta_service_rpc_timeout_ms'' ''10000'' \<in> set config_fields
   \<and> knob_kinds (DEFINE_mInt32 ''meta_service_rpc_timeout_ms'' ''10000'') = [TimeoutKnob]
   \<and> field_mutable (DEFINE_mInt32 ''meta_service_rpc_timeout_ms'' ''10000'')
   \<and> DEFINE_Int64 ''tablet_cache_capacity'' ''100000'' \<in> set config_fields
   \<and> CapacityKnob \<in> set (knob_kinds (DEFINE_Int64 ''tablet_cache_capacity'' ''100000''))
   \<and> field_name (DEFINE_Int64 ''tablet_cache_capacity'' ''100000'') = ''tablet_cache_capacity''"
proof -
  let ?t = "DEFINE_mInt32 ''meta_service_rpc_timeout_ms'' ''10000''"
  let ?c = "DEFINE_Int64 ''tablet_cache_capacity'' ''100000''"
  have m: "?t \<in> set config_fields" by (simp add: config_fields_def)
  have k: "knob_kinds ?t = [TimeoutKnob]" by code_simp
  have mc: "?c \<in> set config_fields" by (simp add: config_fields_def)
  have kc: "knob_kinds ?c = [CapacityKnob]" by code_simp
  from knobs_mutable_except_capacity m have
    "knob_kinds ?t \<noteq> [] \<and> CapacityKnob \<notin> set (knob_kinds ?t) \<longrightarrow> field_mutable ?t"
    by blast
  with k have t: "field_mutable ?t" by simp
  from knobs_mutable_except_capacity mc have
    "CapacityKnob \<in> set (knob_kinds ?c) \<longrightarrow> field_name ?c = ''tablet_cache_capacity''"
    by blast
  with kc have c: "field_name ?c = ''tablet_cache_capacity''" by simp
  from m k t mc kc c show ?thesis by simp
qed

text \<open>
  C6. cloud/config.cpp configures the three budgets separately: 20 general retries, a
  timeout budget of 2 and 10 conflict retries. Against an endpoint on which every attempt
  times out, a call with a timeout budget of at least 1 fails with \<open>RpcTimeout\<close> after
  exactly as many attempts as the timeout budget, whatever the general budget is.
\<close>

theorem timeout_budget_counts_attempts:
  "configured_budgets = Some \<lparr>rpc_retry_times = 20, rpc_timeout_retry_times = 2,
                              conflict_error_retry_times = 10\<rparr>
   \<and> (1 \<le> rpc_timeout_retry_times b \<longrightarrow>
        meta_service_call b (\<lambda>_. Timeout)
          = (Inl RpcTimeout, nat (rpc_timeout_retry_times b)))"
proof (intro conjI impI)
  show "configured_budgets = Some \<lparr>rpc_retry_times = 20, rpc_timeout_retry_times = 2,
                              conflict_error_retry_times = 10\<rparr>"
    by (rule configured_budgets_eq)
next
  assume "1 \<le> rpc_timeout_retry_times b"
  then have "int 0 < rpc_timeout_retry_times b" by simp
  from retry_rpc_always_timeout [of "\<lambda>_. Timeout", OF refl this]
  show "meta_service_call b (\<lambda>_. Timeout) = (Inl RpcTimeout, nat (rpc_timeout_retry_times b))"
    by (simp add: meta_service_call_def)
qed

theorem timeout_budget_counts_attempts_witness:
  "(1::int) \<le> 2
   \<and> meta_service_call \<lparr>rpc_retry_times = 20, rpc_timeout_retry_times = 2,
                         conflict_error_retry_times = 10\<rparr> (\<lambda>_. Timeout)
       = (Inl RpcTimeout, 2)"
  using timeout_budget_counts_attempts [of "\<lparr>rpc_retry_times = 20, rpc_timeout_retry_times = 2,
                         conflict_error_retry_times = 10\<rparr>"]
  by simp

text \<open>
  C7. The conflict budget is 10 by default. Against an endpoint that answers every attempt
  with a conflict, a call with a conflict budget that is not negative fails with
  \<open>RpcConflict\<close> after retrying exactly as many times as the budget. When the client's
  call for a lease acquisition fails with \<open>RpcConflict\<close>, the acquire returns
  \<open>LeaseBusy\<close> and leaves the lease table as it is.
\<close>

theorem conflict_budget_counts_retries:
  "config_int ''meta_service_conflict_error_retry_times'' = Some 10
   \<and> (0 \<le> conflict_error_retry_times b \<longrightarrow>
        meta_service_call b (\<lambda>_. ApplicationConflict)
          = (Inl RpcConflict, Suc (nat (conflict_error_retry_times b)))
        \<and> retries_made (meta_service_call b (\<lambda>_. ApplicationConflict))
            = nat (conflict_error_retry_times b))
   \<and> (fst (meta_service_call b (acquire_endpoint secs transport clock t ow ms)) = Inl RpcConflict
        \<longrightarrow> acquire b secs transport clock t ow ms = (Inl LeaseBusy, ms))"
proof (intro conjI impI)
  show "config_int ''meta_service_conflict_error_retry_times'' = Some 10"
    by (rule config_conflict_retry_times)
next
  assume "0 \<le> conflict_error_retry_times b"
  then have "int 0 \<le> conflict_error_retry_times b" by simp
  from retry_rpc_always_conflict [of "\<lambda>_. ApplicationConflict", OF refl this]
  show c: "meta_service_call b (\<lambda>_. ApplicationConflict)
          = (Inl RpcConflict, Suc (nat (conflict_error_retry_times b)))"
    by (simp add: meta_service_call_def)
  then show "retries_made (meta_service_call b (\<lambda>_. ApplicationConflict))
            = nat (conflict_error_retry_times b)"
    by (simp add: retries_made_def)
next
  assume "fst (meta_service_call b (acquire_endpoint secs transport clock t ow ms)) = Inl RpcConflict"
  then show "acquire b secs transport clock t ow ms = (Inl LeaseBusy, ms)"
    by (auto simp: acquire_def split: prod.splits sum.splits)
qed

theorem conflict_budget_counts_retries_witness:
  "(0::int) \<le> 10
   \<and> meta_service_call \<lparr>rpc_retry_times = 20, rpc_timeout_retry_times = 2,
                         conflict_error_retry_times = 10\<rparr> (\<lambda>_. ApplicationConflict)
       = (Inl RpcConflict, 11)
   \<and> retries_made (meta_service_call \<lparr>rpc_retry_times = 20, rpc_timeout_retry_times = 2,
                         conflict_error_retry_times = 10\<rparr> (\<lambda>_. ApplicationConflict)) = 10
   \<and> acquire \<lparr>rpc_retry_times = 20, rpc_timeout_retry_times = 2,
                conflict_error_retry_times = 10\<rparr> 10 (\<lambda>_. ApplicationConflict) (\<lambda>_. 0) 7 1
        empty_meta_service = (Inl LeaseBusy, empty_meta_service)"
proof -
  let ?b = "\<lparr>rpc_retry_times = 20, rpc_timeout_retry_times = 2, conflict_error_retry_times = 10\<rparr>"
  note c = conflict_budget_counts_retries [of ?b 10 "\<lambda>_. ApplicationConflict" "\<lambda>_. 0" 7 1 empty_meta_service]
  have e: "\<forall>k. acquire_endpoint 10 (\<lambda>_. ApplicationConflict) (\<lambda>_. 0) 7 1 empty_meta_service k
             = ApplicationConflict"
    by (simp add: acquire_endpoint_def)
  have "fst (meta_service_call ?b
          (acquire_endpoint 10 (\<lambda>_. ApplicationConflict) (\<lambda>_. 0) 7 1 empty_meta_service))
        = Inl RpcConflict"
    unfolding meta_service_call_def by (rule retry_rpc_only_conflicts [OF e])
  with c have "acquire ?b 10 (\<lambda>_. ApplicationConflict) (\<lambda>_. 0) 7 1 empty_meta_service
                 = (Inl LeaseBusy, empty_meta_service)"
    by blast
  moreover from c have "meta_service_call ?b (\<lambda>_. ApplicationConflict) = (Inl RpcConflict, 11)"
    and "retries_made (meta_service_call ?b (\<lambda>_. ApplicationConflict)) = 10"
    by (simp_all add: retries_made_def)
  ultimately show ?thesis by simp
qed

text \<open>
  C2. The lease lasts 10 seconds by default. In every state the meta-service reaches from
  the empty lease table: while the lease on a tablet is live at every attempt, an acquire
  does not succeed and leaves the table as it is, and returns \<open>LeaseBusy\<close> when every
  attempt reaches the meta-service; a successful acquire returns an epoch above the
  tablet's last one; of two granted acquisitions of the same tablet the later one has the
  strictly larger epoch, so one epoch belongs to one acquisition and one owner, and a
  mutation under the earlier epoch is rejected; a mutation under any epoch but the
  tablet's current one is rejected; the lease in the table carries the current epoch.
\<close>

theorem lease_epochs_increase:
  assumes "serve secs reqs empty_meta_service = (reps, ms)"
  shows "configured_lease_seconds = Some 10
       \<and> (leases ms t = Some l \<and> (\<forall>k. \<not> expired (clock k) l) \<longrightarrow>
            (\<exists>e. acquire b secs transport clock t ow ms = (Inl e, ms))
            \<and> ((\<forall>k. transport k = Success) \<longrightarrow>
                 acquire b secs transport clock t ow ms = (Inl LeaseBusy, ms)))
       \<and> (acquire b secs transport clock t ow ms = (Inr l, ms1) \<longrightarrow>
            epochs ms t < lease_epoch l \<and> lease_epoch l = epochs ms1 t)
       \<and> (i < j \<and> j < length reqs
            \<and> snd (reqs ! i) = AcquireLease t o1 \<and> reps ! i = LeaseGranted l1
            \<and> snd (reqs ! j) = AcquireLease t o2 \<and> reps ! j = LeaseGranted l2 \<longrightarrow>
            lease_epoch l1 < lease_epoch l2
            \<and> handle secs now (UpdateDeleteBitmap t o1 (lease_epoch l1)) ms = (Rejected, ms))
       \<and> (e \<noteq> epochs ms t \<longrightarrow>
            handle secs now (UpdateDeleteBitmap t ow e) ms = (Rejected, ms))
       \<and> (leases ms t = Some l \<longrightarrow> lease_epoch l = epochs ms t)"
proof -
  have cur: "epochs_current ms"
    by (rule serve_epochs_current [OF assms epochs_current_empty])
  have p1: "leases ms t = Some l \<and> (\<forall>k. \<not> expired (clock k) l) \<longrightarrow>
            (\<exists>e. acquire b secs transport clock t ow ms = (Inl e, ms))
            \<and> ((\<forall>k. transport k = Success) \<longrightarrow>
                 acquire b secs transport clock t ow ms = (Inl LeaseBusy, ms))"
    using acquire_live_fails acquire_live_busy by blast
  have p2: "acquire b secs transport clock t ow ms = (Inr l, ms1) \<longrightarrow>
            epochs ms t < lease_epoch l \<and> lease_epoch l = epochs ms1 t"
  proof
    assume "acquire b secs transport clock t ow ms = (Inr l, ms1)"
    from acquire_granted [OF this] obtain k where
      "handle secs (clock k) (AcquireLease t ow) ms = (LeaseGranted l, ms1)" by blast
    from handle_granted [OF this] show "epochs ms t < lease_epoch l \<and> lease_epoch l = epochs ms1 t"
      by simp
  qed
  have p3: "i < j \<and> j < length reqs
            \<and> snd (reqs ! i) = AcquireLease t o1 \<and> reps ! i = LeaseGranted l1
            \<and> snd (reqs ! j) = AcquireLease t o2 \<and> reps ! j = LeaseGranted l2 \<longrightarrow>
            lease_epoch l1 < lease_epoch l2
            \<and> handle secs now (UpdateDeleteBitmap t o1 (lease_epoch l1)) ms = (Rejected, ms)"
  proof
    assume a: "i < j \<and> j < length reqs
            \<and> snd (reqs ! i) = AcquireLease t o1 \<and> reps ! i = LeaseGranted l1
            \<and> snd (reqs ! j) = AcquireLease t o2 \<and> reps ! j = LeaseGranted l2"
    then have lt: "lease_epoch l1 < lease_epoch l2"
      using serve_epochs_increase [OF assms, of i j t o1 l1 o2 l2] by blast
    from a have "lease_epoch l2 \<le> epochs ms t"
      using serve_granted_bounds [OF assms, of j t o2 l2] by blast
    with lt have "lease_epoch l1 \<noteq> epochs ms t" by simp
    from update_stale_rejected [OF cur this] lt
    show "lease_epoch l1 < lease_epoch l2
            \<and> handle secs now (UpdateDeleteBitmap t o1 (lease_epoch l1)) ms = (Rejected, ms)"
      by simp
  qed
  have p4: "e \<noteq> epochs ms t \<longrightarrow>
            handle secs now (UpdateDeleteBitmap t ow e) ms = (Rejected, ms)"
    using update_stale_rejected [OF cur] by blast
  have p5: "leases ms t = Some l \<longrightarrow> lease_epoch l = epochs ms t"
    using cur by (simp add: epochs_current_def)
  from configured_lease_seconds_eq p1 p2 p3 p4 p5 show ?thesis by blast
qed

theorem lease_epochs_increase_witness:
  "serve 10 [(0, AcquireLease 7 1), (5, AcquireLease 7 2), (11, AcquireLease 7 2),
             (12, UpdateDeleteBitmap 7 1 1)] empty_meta_service
     = ([LeaseGranted \<lparr>lease_tablet = 7, lease_owner = 1, lease_expiration = 10, lease_epoch = 1\<rparr>,
         Conflict,
         LeaseGranted \<lparr>lease_tablet = 7, lease_owner = 2, lease_expiration = 21, lease_epoch = 2\<rparr>,
         Rejected],
        \<lparr>leases = [7 \<mapsto> \<lparr>lease_tablet = 7, lease_owner = 2, lease_expiration = 21,
                           lease_epoch = 2\<rparr>],
         epochs = (epochs empty_meta_service)(7 := 2)\<rparr>)
   \<and> acquire \<lparr>rpc_retry_times = 20, rpc_timeout_retry_times = 2, conflict_error_retry_times = 10\<rparr>
        10 (\<lambda>_. Success) (\<lambda>_. 15) 7 3
        \<lparr>leases = [7 \<mapsto> \<lparr>lease_tablet = 7, lease_owner = 2, lease_expiration = 21,
                           lease_epoch = 2\<rparr>],
         epochs = (epochs empty_meta_service)(7 := 2)\<rparr>
      = (Inl LeaseBusy,
         \<lparr>leases = [7 \<mapsto> \<lparr>lease_tablet = 7, lease_owner = 2, lease_expiration = 21,
                           lease_epoch = 2\<rparr>],
         epochs = (epochs empty_meta_service)(7 := 2)\<rparr>)
   \<and> acquire \<lparr>rpc_retry_times = 20, rpc_timeout_retry_times = 2, conflict_error_retry_times = 10\<rparr>
        10 (\<lambda>_. Success) (\<lambda>_. 30) 7 3
        \<lparr>leases = [7 \<mapsto> \<lparr>lease_tablet = 7, lease_owner = 2, lease_expiration = 21,
                           lease_epoch = 2\<rparr>],
         epochs = (epochs empty_meta_service)(7 := 2)\<rparr>
      = (Inr \<lparr>lease_tablet = 7, lease_owner = 3, lease_expiration = 40, lease_epoch = 3\<rparr>,
         \<lparr>leases = [7 \<mapsto> \<lparr>lease_tablet = 7, lease_owner = 3, lease_expiration = 40,
                           lease_epoch = 3\<rparr>],
         epochs = (epochs empty_meta_service)(7 := 3)\<rparr>)
   \<and> epochs \<lparr>leases = [7 \<mapsto> \<lparr>lease_tablet = 7, lease_owner = 2, lease_expiration = 21,
                           lease_epoch = 2\<rparr>],
         epochs = (epochs empty_meta_service)(7 := 2)\<rparr> 7
       < lease_epoch \<lparr>lease_tablet = 7, lease_owner = 3, lease_expiration = 40, lease_epoch = 3\<rparr>
   \<and> handle 10 30 (UpdateDeleteBitmap 7 1 1)
        \<lparr>leases = [7 \<mapsto> \<lparr>lease_tablet = 7, lease_owner = 2, lease_expiration = 21,
                           lease_epoch = 2\<rparr>],
         epochs = (epochs empty_meta_service)(7 := 2)\<rparr>
      = (Rejected,
         \<lparr>leases = [7 \<mapsto> \<lparr>lease_tablet = 7, lease_owner = 2, lease_expiration = 21,
                           lease_epoch = 2\<rparr>],
         epochs = (epochs empty_meta_service)(7 := 2)\<rparr>)
   \<and> handle 10 15 (UpdateDeleteBitmap 7 3 5)
        \<lparr>leases = [7 \<mapsto> \<lparr>lease_tablet = 7, lease_owner = 2, lease_expiration = 21,
                           lease_epoch = 2\<rparr>],
         epochs = (epochs empty_meta_service)(7 := 2)\<rparr>
      = (Rejected,
         \<lparr>leases = [7 \<mapsto> \<lparr>lease_tablet = 7, lease_owner = 2, lease_expiration = 21,
                           lease_epoch = 2\<rparr>],
         epochs = (epochs empty_meta_service)(7 := 2)\<rparr>)"
proof -
  let ?l1 = "\<lparr>lease_tablet = 7, lease_owner = 1, lease_expiration = 10, lease_epoch = 1\<rparr>"
  let ?l2 = "\<lparr>lease_tablet = 7, lease_owner = 2, lease_expiration = 21, lease_epoch = 2\<rparr>"
  let ?l3 = "\<lparr>lease_tablet = 7, lease_owner = 3, lease_expiration = 40, lease_epoch = 3\<rparr>"
  let ?reqs = "[(0, AcquireLease 7 1), (5, AcquireLease 7 2), (11, AcquireLease 7 2),
                (12, UpdateDeleteBitmap 7 1 1)]"
  let ?reps = "[LeaseGranted ?l1, Conflict, LeaseGranted ?l2, Rejected]"
  let ?ms = "\<lparr>leases = [7 \<mapsto> ?l2], epochs = (epochs empty_meta_service)(7 := 2)\<rparr>"
  let ?ms3 = "\<lparr>leases = [7 \<mapsto> ?l3], epochs = (epochs empty_meta_service)(7 := 3)\<rparr>"
  let ?b = "\<lparr>rpc_retry_times = 20, rpc_timeout_retry_times = 2, conflict_error_retry_times = 10\<rparr>"
  have s: "serve 10 ?reqs empty_meta_service = (?reps, ?ms)"
    by (simp add: empty_meta_service_def grant_def Let_def expired_def numeral_2_eq_2)
  note c = lease_epochs_increase [OF s, where t = 7 and l = ?l2 and clock = "\<lambda>_. 15"
      and transport = "\<lambda>_. Success" and b = ?b and ow = 3 and i = 0 and j = 2
      and ?o1.0 = 1 and ?o2.0 = 2 and ?l1.0 = ?l1 and ?l2.0 = ?l2 and now = 30]
  have live: "leases ?ms 7 = Some ?l2 \<and> (\<forall>k. \<not> expired ((\<lambda>_. 15) k) ?l2)"
    by (simp add: expired_def)
  have d: "\<forall>k. (\<lambda>_. Success) k = Success" by simp
  from c live d have busy: "acquire ?b 10 (\<lambda>_. Success) (\<lambda>_. 15) 7 3 ?ms = (Inl LeaseBusy, ?ms)"
    by blast
  from c live have cur: "lease_epoch ?l2 = epochs ?ms 7" by blast
  have idx: "(0::nat) < 2 \<and> 2 < length ?reqs
      \<and> snd (?reqs ! 0) = AcquireLease 7 1 \<and> ?reps ! 0 = LeaseGranted ?l1
      \<and> snd (?reqs ! 2) = AcquireLease 7 2 \<and> ?reps ! 2 = LeaseGranted ?l2"
    by simp
  from c idx have "handle 10 30 (UpdateDeleteBitmap 7 1 (lease_epoch ?l1)) ?ms = (Rejected, ?ms)"
    by blast
  then have rej: "handle 10 30 (UpdateDeleteBitmap 7 1 1) ?ms = (Rejected, ?ms)"
    by simp
  have got: "acquire ?b 10 (\<lambda>_. Success) (\<lambda>_. 30) 7 3 ?ms = (Inr ?l3, ?ms3)"
    by (simp add: acquire_def meta_service_call_def retry_rpc.simps acquire_endpoint_def
        grant_def Let_def expired_def empty_meta_service_def)
  note c3 = lease_epochs_increase [OF s, where t = 7 and l = ?l3 and clock = "\<lambda>_. 30"
      and transport = "\<lambda>_. Success" and b = ?b and ow = 3 and ?ms1.0 = ?ms3 and e = 5
      and now = 15]
  note c3 [THEN conjunct2, THEN conjunct2, THEN conjunct1, THEN mp, OF got]
  then have above: "epochs ?ms 7 < lease_epoch ?l3" by (rule conjunct1)
  have "(5::nat) \<noteq> epochs ?ms 7" by (simp add: empty_meta_service_def)
  note c3 [THEN conjunct2, THEN conjunct2, THEN conjunct2, THEN conjunct2, THEN conjunct1,
      THEN mp, OF this]
  then have stale: "handle 10 15 (UpdateDeleteBitmap 7 3 5) ?ms = (Rejected, ?ms)" .
  from s busy got above rej stale show ?thesis by (intro conjI)
qed

text \<open>
  C9. The base age is 30 seconds and the idle timeout 0 milliseconds by default. In every
  pool reached from the empty pool: when the channel in a slot has been past its age
  limit or idle beyond its idle timeout at some time, a call on the slot at that time
  or later returns a channel created at the call, with another identifier, and puts it
  in the slot; no later call on any slot hands out the retired channel.
\<close>

theorem retired_channel_replaced:
  assumes reach: "hand_out age idle before (empty_pool n) = Some (hs0, p)"
    and i: "i < length (channels p)" and c0: "channels p ! i = Some c0"
    and r0: "retired t0 c0" and t0: "t0 \<le> now"
  shows "configured_age_ms = Some 30000 \<and> configured_idle_ms = Some 0
       \<and> (\<exists>c p1. get_channel age idle now i p = Some (c, p1)
           \<and> channel_id c \<noteq> channel_id c0 \<and> created_at c = now \<and> \<not> retired now c
           \<and> channels p1 ! i = Some c
           \<and> (\<forall>later hs p2. hand_out age idle later p1 = Some (hs, p2) \<longrightarrow>
                 (\<forall>d\<in>set hs. channel_id d \<noteq> channel_id c0)))"
proof -
  have r: "retired now c0" by (rule retired_later [OF r0 t0])
  have ok: "pool_ok p" by (rule hand_out_pool_ok [OF reach pool_ok_empty])
  from get_channel_total [OF i] obtain c p1 where g: "get_channel age idle now i p = Some (c, p1)"
    by blast
  from get_channel_replaces [OF g ok c0 r] have
    gone: "gone p1 (channel_id c0)" and ne: "channel_id c \<noteq> channel_id c0" and cr: "created_at c = now"
    by simp_all
  have ok1: "pool_ok p1" by (rule get_channel_pool_ok [OF g ok])
  have "\<forall>later hs p2. hand_out age idle later p1 = Some (hs, p2) \<longrightarrow>
                 (\<forall>d\<in>set hs. channel_id d \<noteq> channel_id c0)"
    using hand_out_gone [OF _ ok1 gone] by blast
  with g ne cr get_channel_not_retired [OF g] get_channel_slot [OF g] configured_pool_eq
  show ?thesis by blast
qed

theorem retired_channel_replaced_witness:
  "hand_out 30000 0 [(0, 0)] (empty_pool 2)
     = Some ([\<lparr>channel_id = 0, created_at = 0, last_used = 0, age_limit = 30000,
               idle_timeout = 0\<rparr>],
             \<lparr>channels = [Some \<lparr>channel_id = 0, created_at = 0, last_used = 0,
                                age_limit = 30000, idle_timeout = 0\<rparr>, None],
              next_channel_id = 1\<rparr>)
   \<and> retired 30001 \<lparr>channel_id = 0, created_at = 0, last_used = 0, age_limit = 30000,
                     idle_timeout = 0\<rparr>
   \<and> (\<exists>c p1. get_channel 30000 0 40000 0
                 \<lparr>channels = [Some \<lparr>channel_id = 0, created_at = 0, last_used = 0,
                                    age_limit = 30000, idle_timeout = 0\<rparr>, None],
                  next_channel_id = 1\<rparr> = Some (c, p1)
          \<and> channel_id c \<noteq> 0 \<and> created_at c = 40000)"
proof -
  let ?c0 = "\<lparr>channel_id = 0, created_at = 0, last_used = 0, age_limit = 30000,
              idle_timeout = 0\<rparr>"
  let ?p = "\<lparr>channels = [Some ?c0, None], next_channel_id = 1\<rparr>"
  have reach: "hand_out 30000 0 [(0, 0)] (empty_pool 2) = Some ([?c0], ?p)"
    by (simp add: empty_pool_def get_channel_def create_channel_def Let_def numeral_2_eq_2)
  have i: "0 < length (channels ?p)" by simp
  have c0: "channels ?p ! 0 = Some ?c0" by simp
  have r0: "retired 30001 ?c0" by (simp add: retired_def)
  have t0: "(30001::nat) \<le> 40000" by simp
  from retired_channel_replaced [OF reach i c0 r0 t0]
  have "\<exists>c p1. get_channel 30000 0 40000 0 ?p = Some (c, p1)
          \<and> channel_id c \<noteq> 0 \<and> created_at c = 40000"
    by auto
  with reach r0 show ?thesis by blast
qed

end
